theory Spec2Isabelle
  imports Complex_Main
begin

section \<open>Strings\<close>

text \<open>
  The gateway is \<^verbatim>\<open>src/frontend/src/app/api/chat/route.ts\<close>. A JavaScript string is
  a sequence of UTF-16 code units; \<open>length\<close>, \<open>slice\<close>, \<open>trim\<close> and the regular
  expression engine (without the \<open>u\<close> flag) all work on code units. A string is therefore
  modelled as the list of its code units, each a natural number. \<open>js\<close> embeds an ASCII
  literal.
\<close>

type_synonym jsstring = "nat list"

definition js :: "string \<Rightarrow> jsstring" where
  "js s = map of_char s"

section \<open>The input sanitizer\<close>

subsection \<open>\<open>String.prototype.trim\<close>\<close>

text \<open>
  \<open>trim\<close> removes ECMAScript WhiteSpace and LineTerminator code units from both ends:
  TAB, LF, VT, FF, CR, SP, NBSP, U+1680, U+2000..U+200A, LS, PS, U+202F, U+205F, U+3000
  and U+FEFF.
\<close>

definition isWhiteSpace :: "nat \<Rightarrow> bool" where
  "isWhiteSpace c =
     (c = 9 \<or> c = 10 \<or> c = 11 \<or> c = 12 \<or> c = 13 \<or> c = 32 \<or> c = 160 \<or> c = 5760
      \<or> (8192 \<le> c \<and> c \<le> 8202) \<or> c = 8232 \<or> c = 8233 \<or> c = 8239 \<or> c = 8287
      \<or> c = 12288 \<or> c = 65279)"

definition trim :: "jsstring \<Rightarrow> jsstring" where
  "trim s = rev (dropWhile isWhiteSpace (rev (dropWhile isWhiteSpace s)))"

subsection \<open>The regular expression\<close>

text \<open>
  The script pattern is
  \<^verbatim>\<open>/<script\b[^<]*(?:(?!<\/script>)<[^<]*)*<\/script>/gi\<close>.
  It is kept as data and run by a backtracking matcher in the style of the ECMAScript
  specification: a matcher takes a continuation and a state, and a state is the pair of
  the input already passed (nearest code unit first) and the input still ahead.

  \<open>Chr c\<close> is a pattern character, \<open>NotChr c\<close> the class \<^verbatim>\<open>[^c]\<close>, \<open>Star\<close> the greedy
  \<^verbatim>\<open>*\<close>, \<open>NotAhead\<close> the negative lookahead \<^verbatim>\<open>(?!...)\<close> and \<open>WordBoundary\<close> is
  \<^verbatim>\<open>\b\<close>. With the \<open>i\<close> flag both sides of a character comparison go through
  \<open>canonicalize\<close>: upper-casing of \<open>a..z\<close>; a code unit from 128 on is never mapped below
  128 by ECMAScript's Canonicalize, so for the ASCII characters of this pattern the
  comparison is decided by the ASCII mapping alone.
\<close>

datatype regex =
    Eps
  | Chr nat
  | NotChr nat
  | Seq regex regex
  | Star regex
  | NotAhead regex
  | WordBoundary

type_synonym mstate = "jsstring \<times> jsstring"

type_synonym cont = "mstate \<Rightarrow> mstate option"

definition canonicalize :: "nat \<Rightarrow> nat" where
  "canonicalize c = (if 97 \<le> c \<and> c \<le> 122 then c - 32 else c)"

definition isWordChar :: "nat \<Rightarrow> bool" where
  "isWordChar c =
     ((48 \<le> c \<and> c \<le> 57) \<or> (65 \<le> c \<and> c \<le> 90) \<or> c = 95 \<or> (97 \<le> c \<and> c \<le> 122))"

text \<open>
  The greedy star (RepeatMatcher with \<open>min = 0\<close>, \<open>max = \<infinity>\<close>): try one more iteration
  first, and only when everything after it fails, go on with the continuation. An
  iteration that consumes nothing is rejected, as ECMAScript does.
\<close>

function star :: "(cont \<Rightarrow> cont) \<Rightarrow> cont \<Rightarrow> cont" where
  "star m k x =
     (case m (\<lambda>y. if length (snd y) < length (snd x) then star m k y else None) x of
        Some r \<Rightarrow> Some r
      | None \<Rightarrow> k x)"
  by pat_completeness auto
termination
  by (relation "measure (\<lambda>(m, k, x). length (snd x))") auto

declare star.simps [simp del]

fun match :: "regex \<Rightarrow> cont \<Rightarrow> cont" where
  "match Eps k (b, s) = k (b, s)"
| "match (Chr c) k (b, []) = None"
| "match (Chr c) k (b, a # as) =
     (if canonicalize a = canonicalize c then k (a # b, as) else None)"
| "match (NotChr c) k (b, []) = None"
| "match (NotChr c) k (b, a # as) =
     (if canonicalize a \<noteq> canonicalize c then k (a # b, as) else None)"
| "match (Seq r1 r2) k (b, s) = match r1 (match r2 k) (b, s)"
| "match (Star r) k (b, s) = star (match r) k (b, s)"
| "match (NotAhead r) k (b, s) =
     (case match r Some (b, s) of Some y \<Rightarrow> None | None \<Rightarrow> k (b, s))"
| "match WordBoundary k (b, s) =
     (let a = (case b of [] \<Rightarrow> False | c # cs \<Rightarrow> isWordChar c);
          z = (case s of [] \<Rightarrow> False | c # cs \<Rightarrow> isWordChar c)
      in if a \<noteq> z then k (b, s) else None)"

definition lit :: "string \<Rightarrow> regex" where
  "lit w = foldr (\<lambda>c r. Seq (Chr (of_char c)) r) w Eps"

definition scriptRegex :: regex where
  "scriptRegex =
     Seq (lit ''<script'')
    (Seq WordBoundary
    (Seq (Star (NotChr 60))
    (Seq (Star (Seq (NotAhead (lit ''</script>'')) (Seq (Chr 60) (Star (NotChr 60)))))
         (lit ''</script>''))))"

text \<open>The repeated group of the pattern and the matcher of what follows it.\<close>

abbreviation group :: regex where
  "group \<equiv> Seq (NotAhead (lit ''</script>'')) (Seq (Chr 60) (Star (NotChr 60)))"

abbreviation closing :: cont where
  "closing \<equiv> match (lit ''</script>'') Some"

text \<open>
  \<open>replace\<close> with a global pattern and the replacement \<^verbatim>\<open>''\<close>: try the pattern at the
  current position; a non-empty match is dropped and the scan goes on behind it;
  otherwise the code unit is kept and the scan moves one position on. The pattern is
  always matched against the original string, so the code units of a dropped match stay
  in the left context.
\<close>

function replaceAll :: "regex \<Rightarrow> mstate \<Rightarrow> jsstring" where
  "replaceAll r (b, s) =
     (case match r Some (b, s) of
        Some (b', s') \<Rightarrow>
          if length s' < length s then replaceAll r (b', s')
          else (case s of [] \<Rightarrow> [] | c # cs \<Rightarrow> c # replaceAll r (c # b, cs))
      | None \<Rightarrow> (case s of [] \<Rightarrow> [] | c # cs \<Rightarrow> c # replaceAll r (c # b, cs)))"
  by pat_completeness auto
termination
  by (relation "measure (\<lambda>(r, b, s). length s)") auto

declare replaceAll.simps [simp del]

subsection \<open>\<open>sanitizeInput\<close>\<close>

text \<open>
  \<^verbatim>\<open>input.trim().replace(<script pattern>, '').replace(/[<>]/g, '').slice(0, 1000)\<close>.
  Code unit 60 is \<^verbatim>\<open><\<close> and 62 is \<^verbatim>\<open>>\<close>.
\<close>

definition sanitizeInput :: "jsstring \<Rightarrow> jsstring" where
  "sanitizeInput input =
     take 1000 (filter (\<lambda>c. c \<noteq> 60 \<and> c \<noteq> 62) (replaceAll scriptRegex ([], trim input)))"

subsection \<open>The sanitizer as the specification words it\<close>

text \<open>
  Section 4.1 of the specification describes the second stage as removing every
  \<^verbatim>\<open><script>...</script>\<close> fragment, case-insensitively, each fragment ending at the
  nearest closing tag. The following definitions say this directly, as a scan over the
  text, and are compared with the regular expression below. \<open>ciPrefix w s\<close>: the text
  \<open>s\<close> starts with the word \<open>w\<close>, letter case ignored. \<open>fragmentEnd s\<close>: the text behind the
  first closing tag in \<open>s\<close>. \<open>opensFragment s\<close>: \<open>s\<close> starts with an opening script tag,
  that is \<^verbatim>\<open><script\<close> with the tag name ending there.
\<close>

definition ciPrefix :: "string \<Rightarrow> jsstring \<Rightarrow> bool" where
  "ciPrefix w s =
     (length w \<le> length s \<and>
      map canonicalize (take (length w) s) = map (\<lambda>c. canonicalize (of_char c)) w)"

fun fragmentEnd :: "jsstring \<Rightarrow> jsstring option" where
  "fragmentEnd [] = None"
| "fragmentEnd (a # as) =
     (if ciPrefix ''</script>'' (a # as) then Some (drop 9 (a # as)) else fragmentEnd as)"

definition opensFragment :: "jsstring \<Rightarrow> bool" where
  "opensFragment s =
     (ciPrefix ''<script'' s \<and> (case drop 7 s of [] \<Rightarrow> True | c # cs \<Rightarrow> \<not> isWordChar c))"

definition scriptFragment :: "jsstring \<Rightarrow> jsstring option" where
  "scriptFragment s = (if opensFragment s then fragmentEnd (drop 7 s) else None)"

function removeFragments :: "jsstring \<Rightarrow> jsstring" where
  "removeFragments [] = []"
| "removeFragments (c # cs) =
     (case scriptFragment (c # cs) of
        Some rest \<Rightarrow> removeFragments rest
      | None \<Rightarrow> c # removeFragments cs)"
  by pat_completeness auto
termination
proof (relation "measure length")
  show "wf (measure length)" by simp
next
  fix c :: nat and cs :: "nat list"
  assume "scriptFragment (c # cs) = None"
  show "(cs, c # cs) \<in> measure length" by simp
next
  fix c :: nat and cs rest :: "nat list"
  assume a: "scriptFragment (c # cs) = Some rest"
  have le: "fragmentEnd s = Some r \<Longrightarrow> length r < length s" for s r
  proof (induction s)
    case Nil
    then show ?case by simp
  next
    case (Cons a as)
    then show ?case by (auto split: if_splits)
  qed
  from a have "fragmentEnd (drop 7 (c # cs)) = Some rest"
    by (simp add: scriptFragment_def split: if_splits)
  from le[OF this] have "length rest < length (c # cs)" by simp
  then show "(rest, c # cs) \<in> measure length" by simp
qed

definition sanitize_spec :: "jsstring \<Rightarrow> jsstring" where
  "sanitize_spec input =
     take 1000 (filter (\<lambda>c. c \<noteq> 60 \<and> c \<noteq> 62) (removeFragments (trim input)))"

section \<open>The quota tracker\<close>

text \<open>
  \<open>rateLimitStore\<close> is a \<open>Map\<close> from the caller's address to \<open>{count, resetTime}\<close>. Times
  are epoch milliseconds and counts are small integers, all far below \<open>2^53\<close>, so the
  JavaScript numbers are modelled as integers. The handlers run to completion one at a
  time, so the store is passed in and returned.
\<close>

record entry =
  count :: int
  resetTime :: int

type_synonym store = "jsstring \<Rightarrow> entry option"

definition dailyLimit :: int where
  "dailyLimit = 50"

definition dayMs :: int where
  "dayMs = 24 * 60 * 60 * 1000"

text \<open>
  The clean-up loop visits every entry and deletes those with \<open>now > value.resetTime\<close>;
  the map that is left holds exactly the other entries.
\<close>

definition sweep :: "int \<Rightarrow> store \<Rightarrow> store" where
  "sweep now st =
     (\<lambda>key. case st key of
               None \<Rightarrow> None
             | Some v \<Rightarrow> if now > resetTime v then None else Some v)"

record rateLimit =
  allowed :: bool
  remaining :: int

definition checkRateLimit :: "jsstring \<Rightarrow> int \<Rightarrow> store \<Rightarrow> rateLimit \<times> store" where
  "checkRateLimit ip now st0 =
     (let st = sweep now st0 in
      case st ip of
        None \<Rightarrow>
          (\<lparr>allowed = True, remaining = dailyLimit - 1\<rparr>,
           st(ip \<mapsto> \<lparr>count = 1, resetTime = now + dayMs\<rparr>))
      | Some userLimit \<Rightarrow>
          if now > resetTime userLimit then
            (\<lparr>allowed = True, remaining = dailyLimit - 1\<rparr>,
             st(ip \<mapsto> \<lparr>count = 1, resetTime = now + dayMs\<rparr>))
          else if count userLimit \<ge> dailyLimit then
            (\<lparr>allowed = False, remaining = 0\<rparr>, st)
          else
            (let userLimit' = userLimit\<lparr>count := count userLimit + 1\<rparr>
             in (\<lparr>allowed = True, remaining = dailyLimit - count userLimit'\<rparr>,
                 st(ip \<mapsto> userLimit'))))"

section \<open>The gateway\<close>

subsection \<open>Requests and responses\<close>

text \<open>
  \<open>bodyJson\<close> is what \<open>request.json()\<close> resolves to; it is \<open>None\<close> when the body is absent
  or is not JSON, and \<open>request.json()\<close> rejects. The two header fields are what
  \<open>request.headers.get\<close> returns (\<open>None\<close> for \<open>null\<close>). In an object the fields are in
  source order; \<open>JSON.parse\<close> lets the last of two equal keys win.
\<close>

datatype json =
    JNull
  | JBool bool
  | JNumber real
  | JString jsstring
  | JArray "json list"
  | JObject "(jsstring \<times> json) list"

record request =
  bodyJson :: "json option"
  xForwardedFor :: "jsstring option"
  xRealIp :: "jsstring option"

datatype error = TypeError

text \<open>
  A response body is one of the three shapes the handlers build. The message of a chat
  body is \<open>None\<close> when the JavaScript value is \<open>undefined\<close> (an array read out of range).
\<close>

datatype resp_body =
    ErrorBody jsstring
  | ChatBody "jsstring option" bool int
  | StatusBody int int

record response =
  status :: nat
  payload :: resp_body


definition FALLBACK_RESPONSES :: "jsstring list" where
  "FALLBACK_RESPONSES =
     [js ''Sorry, the demo is currently unavailable. Please try again later.'',
      js ''I'm experiencing some technical difficulties right now. Please check back soon!'',
      js ''The demo service is temporarily offline. Thank you for your patience.'',
      js ''I'm currently unable to process your request. Please try again in a few moments.'',
      js ''Our demo is taking a short break! Please come back later.'']"

text \<open>
  \<^verbatim>\<open>FALLBACK_RESPONSES[Math.floor(Math.random() * FALLBACK_RESPONSES.length)]\<close>, with
  the value of \<open>Math.random()\<close> as the argument.
\<close>

definition pickFallback :: "real \<Rightarrow> jsstring option" where
  "pickFallback r =
     (let i = \<lfloor>r * real (length FALLBACK_RESPONSES)\<rfloor>
      in if 0 \<le> i \<and> nat i < length FALLBACK_RESPONSES
         then Some (FALLBACK_RESPONSES ! nat i) else None)"

definition LIMIT_MESSAGE :: jsstring where
  "LIMIT_MESSAGE =
     js ''You've reached the daily demo limit of 50 messages. Please try again tomorrow!''"

text \<open>\<^verbatim>\<open>forwarded?.split(',')[0] || realIP || 'unknown'\<close>; code unit 44 is the comma.\<close>

definition truthyString :: "jsstring option \<Rightarrow> bool" where
  "truthyString v = (case v of None \<Rightarrow> False | Some s \<Rightarrow> s \<noteq> [])"

definition getClientIP :: "request \<Rightarrow> jsstring" where
  "getClientIP request =
     (let forwarded = xForwardedFor request;
          realIP = xRealIp request;
          first = (case forwarded of
                     None \<Rightarrow> None
                   | Some f \<Rightarrow> Some (takeWhile (\<lambda>c. c \<noteq> 44) f))
      in if truthyString first then the first
         else if truthyString realIP then the realIP
         else js ''unknown'')"

subsection \<open>GET\<close>

text \<open>
  Nothing in the \<open>try\<close> block of \<open>GET\<close> raises: it reads two headers and the clock,
  deletes from and reads the map, and builds a response from two numbers. The \<open>catch\<close>
  block, which would answer 500 with \<open>{remaining: 0, resetTime}\<close>, is therefore never
  entered, and the model is the \<open>try\<close> block.
\<close>

definition GET :: "request \<Rightarrow> int \<Rightarrow> store \<Rightarrow> response \<times> store" where
  "GET request now st0 =
     (let clientIP = getClientIP request;
          st = sweep now st0
      in case st clientIP of
           None \<Rightarrow> (\<lparr>status = 200, payload = StatusBody dailyLimit (now + dayMs)\<rparr>, st)
         | Some userLimit \<Rightarrow>
             if now > resetTime userLimit then
               (\<lparr>status = 200, payload = StatusBody dailyLimit (now + dayMs)\<rparr>, st)
             else
               (\<lparr>status = 200,
                 payload = StatusBody (max 0 (dailyLimit - count userLimit))
                                      (resetTime userLimit)\<rparr>, st))"

subsection \<open>POST\<close>

text \<open>
  What one request reads from its environment: \<open>clock\<close> is \<open>Date.now()\<close> in
  \<open>checkRateLimit\<close>, \<open>apiKey\<close> is \<open>process.env.GEMINI_API_KEY\<close>, \<open>random\<close> is the value of
  the one \<open>Math.random()\<close> call a request makes, and \<open>generate\<close> is the outcome of the
  upstream call for a prompt: it raises or rejects (\<open>Rejected\<close>), it resolves and
  \<open>response.text()\<close> is the given text (\<open>None\<close> when there is none), or the awaited promise
  never settles (\<open>Pending\<close>). The handler awaits the call without a timer of its own, so
  with \<open>Pending\<close> it gives no response at all: the response is \<open>None\<close>.
\<close>

datatype upstream = Rejected | Resolved "jsstring option" | Pending

record env =
  clock :: int
  apiKey :: "jsstring option"
  random :: real
  generate :: "jsstring \<Rightarrow> upstream"

text \<open>\<^verbatim>\<open>const { message } = ...\<close>: \<open>null\<close> cannot be destructured; a value without the
  property gives \<open>undefined\<close> (\<open>None\<close>).\<close>

fun destructureMessage :: "json \<Rightarrow> error + json option" where
  "destructureMessage JNull = Inl TypeError"
| "destructureMessage (JObject members) = Inr (map_of (rev members) (js ''message''))"
| "destructureMessage (JBool b) = Inr None"
| "destructureMessage (JNumber n) = Inr None"
| "destructureMessage (JString s) = Inr None"
| "destructureMessage (JArray xs) = Inr None"

fun truthy :: "json option \<Rightarrow> bool" where
  "truthy None = False"
| "truthy (Some JNull) = False"
| "truthy (Some (JBool b)) = b"
| "truthy (Some (JNumber n)) = (n \<noteq> 0)"
| "truthy (Some (JString s)) = (s \<noteq> [])"
| "truthy (Some (JArray xs)) = True"
| "truthy (Some (JObject members)) = True"

fun typeof :: "json option \<Rightarrow> string" where
  "typeof None = ''undefined''"
| "typeof (Some JNull) = ''object''"
| "typeof (Some (JBool b)) = ''boolean''"
| "typeof (Some (JNumber n)) = ''number''"
| "typeof (Some (JString s)) = ''string''"
| "typeof (Some (JArray xs)) = ''object''"
| "typeof (Some (JObject members)) = ''object''"

fun stringValue :: "json option \<Rightarrow> jsstring" where
  "stringValue (Some (JString s)) = s"
| "stringValue v = []"

definition promptFor :: "jsstring \<Rightarrow> jsstring" where
  "promptFor sanitizedMessage =
     js ''You are a helpful AI assistant for Botsistant, a chatbot platform. Keep responses concise and friendly. If users ask about Botsistant, explain that it's a platform for building AI chatbots for businesses.''
     @ [10, 10] @ js ''User message: '' @ sanitizedMessage"

definition POST_catch :: "env \<Rightarrow> response" where
  "POST_catch e = \<lparr>status = 500, payload = ChatBody (pickFallback (random e)) True 0\<rparr>"

definition POST :: "request \<Rightarrow> env \<Rightarrow> store \<Rightarrow> response option \<times> store" where
  "POST request e st =
     (case bodyJson request of
        None \<Rightarrow> (Some (POST_catch e), st)
      | Some parsed \<Rightarrow>
         (case destructureMessage parsed of
            Inl err \<Rightarrow> (Some (POST_catch e), st)
          | Inr message \<Rightarrow>
              if \<not> truthy message \<or> typeof message \<noteq> ''string'' then
                (Some \<lparr>status = 400,
                       payload = ErrorBody (js ''Message is required and must be a string'')\<rparr>, st)
              else
                (let sanitizedMessage = sanitizeInput (stringValue message) in
                 if sanitizedMessage = [] then
                   (Some \<lparr>status = 400, payload = ErrorBody (js ''Invalid message content'')\<rparr>, st)
                 else
                   (let clientIP = getClientIP request;
                        (rateLimit, st') = checkRateLimit clientIP (clock e) st
                    in if \<not> allowed rateLimit then
                         (Some \<lparr>status = 200, payload = ChatBody (Some LIMIT_MESSAGE) True 0\<rparr>, st')
                       else if \<not> truthyString (apiKey e) then
                         (Some \<lparr>status = 200,
                                payload = ChatBody (pickFallback (random e)) True
                                                   (remaining rateLimit)\<rparr>, st')
                       else
                         (case generate e (promptFor sanitizedMessage) of
                            Pending \<Rightarrow> (None, st')
                          | Rejected \<Rightarrow>
                              (Some \<lparr>status = 200,
                                     payload = ChatBody (pickFallback (random e)) True
                                                        (remaining rateLimit)\<rparr>, st')
                          | Resolved text \<Rightarrow>
                              if \<not> truthyString text then
                                (Some \<lparr>status = 200,
                                       payload = ChatBody (pickFallback (random e)) True
                                                          (remaining rateLimit)\<rparr>, st')
                              else
                                (Some \<lparr>status = 200,
                                       payload = ChatBody text False (remaining rateLimit)\<rparr>,
                                 st'))))))"

subsection \<open>Runs of the public interface\<close>

text \<open>
  The store starts empty when the process starts and is changed only by the two
  handlers.
\<close>

datatype event = Post request env | Get request int

fun eventTime :: "event \<Rightarrow> int" where
  "eventTime (Post request e) = clock e"
| "eventTime (Get request now) = now"

fun step :: "event \<Rightarrow> store \<Rightarrow> store" where
  "step (Post request e) st = snd (POST request e st)"
| "step (Get request now) st = snd (GET request now st)"

definition run :: "event list \<Rightarrow> store \<Rightarrow> store" where
  "run evs st = fold step evs st"

inductive reachable :: "store \<Rightarrow> bool" where
  initial: "reachable Map.empty"
| after: "reachable st \<Longrightarrow> reachable (step ev st)"

text \<open>Every stored count is between 1 and the daily limit.\<close>

definition countsOk :: "store \<Rightarrow> bool" where
  "countsOk st = (\<forall>k e. st k = Some e \<longrightarrow> 1 \<le> count e \<and> count e \<le> dailyLimit)"

text \<open>
  A request consumes quota when it passes the two payload checks and so reaches
  \<open>checkRateLimit\<close>.
\<close>

definition accepted :: "request \<Rightarrow> bool" where
  "accepted request =
     (case bodyJson request of
        None \<Rightarrow> False
      | Some parsed \<Rightarrow>
         (case destructureMessage parsed of
            Inl err \<Rightarrow> False
          | Inr message \<Rightarrow>
              truthy message \<and> typeof message = ''string'' \<and>
              sanitizeInput (stringValue message) \<noteq> []))"

text \<open>The prompt the upstream call is made with, for an accepted request.\<close>

definition requestPrompt :: "request \<Rightarrow> jsstring" where
  "requestPrompt request =
     (case bodyJson request of
        None \<Rightarrow> []
      | Some parsed \<Rightarrow>
         (case destructureMessage parsed of
            Inl err \<Rightarrow> []
          | Inr message \<Rightarrow> promptFor (sanitizeInput (stringValue message))))"

fun isPeek :: "event \<Rightarrow> bool" where
  "isPeek (Get request now) = True"
| "isPeek (Post request e) = False"

fun consumesFor :: "jsstring \<Rightarrow> event \<Rightarrow> bool" where
  "consumesFor ip (Post request e) = (accepted request \<and> getClientIP request = ip)"
| "consumesFor ip (Get request now) = False"

subsection \<open>A concrete visitor\<close>

text \<open>
  A request as the demo page sends it, arriving through a proxy, and two environments:
  one without an upstream credential and one with a credential and a given upstream
  behaviour.
\<close>

definition visitor :: jsstring where
  "visitor = js ''203.0.113.7''"

definition helloRequest :: request where
  "helloRequest =
     \<lparr>bodyJson = Some (JObject [(js ''message'', JString (js ''hello''))]),
      xForwardedFor = Some (js ''203.0.113.7, 10.0.0.1''),
      xRealIp = None\<rparr>"

definition offlineEnv :: "int \<Rightarrow> env" where
  "offlineEnv t = \<lparr>clock = t, apiKey = None, random = 1 / 2, generate = (\<lambda>p. Rejected)\<rparr>"

definition onlineEnv :: "int \<Rightarrow> upstream \<Rightarrow> env" where
  "onlineEnv t u = \<lparr>clock = t, apiKey = Some (js ''key''), random = 1 / 2, generate = (\<lambda>p. u)\<rparr>"

section \<open>The regular expression removes script fragments\<close>

text \<open>
  The matcher is deterministic on this pattern: \<^verbatim>\<open>[^<]*\<close> can only stop in front of a
  \<^verbatim>\<open><\<close> or at the end, since everything that follows it in the pattern starts with
  \<^verbatim>\<open><\<close>; and at a \<^verbatim>\<open><\<close> the lookahead decides between one more round of the group
  and the closing tag. So a match runs from the opening tag to the first closing tag.
\<close>

lemma match_lit:
  "match (lit w) k (b, s) =
     (if ciPrefix w s then k (rev (take (length w) s) @ b, drop (length w) s) else None)"
proof (induction w arbitrary: b s)
  case Nil
  show ?case by (simp add: lit_def ciPrefix_def)
next
  case (Cons c w)
  have unf: "lit (c # w) = Seq (Chr (of_char c)) (lit w)" by (simp add: lit_def)
  show ?case
  proof (cases s)
    case Nil
    then show ?thesis by (simp add: unf ciPrefix_def)
  next
    case (Cons a as)
    show ?thesis
      unfolding unf using Cons Cons.IH[of "a # b" as]
      by (auto simp: ciPrefix_def)
  qed
qed

lemma canon_lt [simp]: "canonicalize a = canonicalize 60 \<longleftrightarrow> a = 60"
  by (auto simp: canonicalize_def)

lemma star_notlt:
  assumes k: "\<And>b a as. a \<noteq> 60 \<Longrightarrow> k (b, a # as) = None"
  shows "star (match (NotChr 60)) k (b, s) =
           k (rev (takeWhile (\<lambda>c. c \<noteq> 60) s) @ b, dropWhile (\<lambda>c. c \<noteq> 60) s)"
proof (induction s arbitrary: b)
  case Nil
  show ?case by (subst star.simps) simp
next
  case (Cons a as)
  show ?case
  proof (cases "a = 60")
    case True
    then show ?thesis by (subst star.simps) simp
  next
    case False
    then show ?thesis
      using Cons.IH[of "a # b"] k[of a b as]
      by (subst star.simps) (simp split: option.splits)
  qed
qed


lemma ciPrefix_close_hd: "ciPrefix ''</script>'' (a # as) \<Longrightarrow> a = 60"
  by (auto simp: ciPrefix_def canonicalize_def split: if_splits)

lemma ciPrefix_Nil [simp]: "\<not> ciPrefix ''</script>'' []"
  by (simp add: ciPrefix_def)

lemma fragmentEnd_skip: "fragmentEnd s = fragmentEnd (dropWhile (\<lambda>c. c \<noteq> 60) s)"
  by (induction s) (auto dest: ciPrefix_close_hd)

lemma tail_fail:
  assumes "s = [] \<or> hd s \<noteq> 60"
  shows "star (match group) closing (b, s) = None"
proof (cases s)
  case Nil
  then show ?thesis by (subst star.simps) (simp add: match_lit)
next
  case (Cons a as)
  with assms have "a \<noteq> 60" by simp
  then have "\<not> ciPrefix ''</script>'' (a # as)" using ciPrefix_close_hd by blast
  then show ?thesis using Cons \<open>a \<noteq> 60\<close>
    by (subst star.simps) (simp add: match_lit)
qed

lemma tail_find:
  "map_option snd (star (match group) closing (b, dropWhile (\<lambda>c. c \<noteq> 60) s)) = fragmentEnd s"
proof (induction "length s" arbitrary: s b rule: less_induct)
  case less
  let ?d = "dropWhile (\<lambda>c. c \<noteq> 60) s"
  have skip: "fragmentEnd s = fragmentEnd ?d" by (rule fragmentEnd_skip)
  show ?case
  proof (cases ?d)
    case Nil
    have "star (match group) closing (b, ?d) = None"
      unfolding Nil by (rule tail_fail) simp
    moreover have "fragmentEnd ?d = None" unfolding Nil by simp
    ultimately show ?thesis unfolding skip by simp
  next
    case (Cons a as)
    have "hd ?d = 60" using hd_dropWhile[of "\<lambda>c. c \<noteq> 60" s] Cons by fastforce
    then have a: "a = 60" unfolding Cons by simp
    have "length ?d \<le> length s" by (rule length_dropWhile_le)
    then have len: "length as < length s" unfolding Cons by simp
    let ?b' = "rev (takeWhile (\<lambda>c. c \<noteq> 60) as) @ 60 # b"
    let ?d' = "dropWhile (\<lambda>c. c \<noteq> 60) as"
    have IH: "map_option snd (star (match group) closing (?b', ?d')) = fragmentEnd as"
      using less[OF len] .
    show ?thesis
    proof (cases "ciPrefix ''</script>'' (60 # as)")
      case True
      have "star (match group) closing (b, 60 # as) = Some (rev (take 9 (60 # as)) @ b, drop 9 (60 # as))"
        using True by (subst star.simps) (simp add: match_lit eval_nat_numeral)
      moreover have "fragmentEnd (60 # as) = Some (drop 9 (60 # as))" using True by simp
      ultimately show ?thesis unfolding skip Cons a by simp
    next
      case False
      let ?K = "\<lambda>y. if length (snd y) < length (snd (b, 60 # as)) then star (match group) closing y else None"
      have Kfail: "\<And>b' a' as'. a' \<noteq> 60 \<Longrightarrow> ?K (b', a' # as') = None"
        using tail_fail by simp
      have "length ?d' \<le> length as" by (rule length_dropWhile_le)
      then have inner: "star (match (NotChr 60)) ?K (60 # b, as) = star (match group) closing (?b', ?d')"
        using star_notlt[of ?K "60 # b" as, OF Kfail] by simp
      have fc: "fragmentEnd (60 # as) = fragmentEnd as"
        using False by simp
      have grp: "match group ?K (b, 60 # as) = star (match group) closing (?b', ?d')"
        using False inner by (simp add: match_lit)
      have cl: "closing (b, 60 # as) = None"
        using False by (simp add: match_lit)
      have "star (match group) closing (b, 60 # as) = star (match group) closing (?b', ?d')"
        by (subst star.simps, subst grp, subst cl) (simp split: option.splits)
      then show ?thesis using IH fc unfolding skip Cons a by simp
    qed
  qed
qed


lemma ciPrefix_open_last:
  assumes "ciPrefix ''<script'' s"
  shows "\<exists>t bs. rev (take 7 s) @ b = t # bs \<and> isWordChar t"
proof -
  from assms have len: "7 \<le> length s" and t: "canonicalize (s ! 6) = 84"
    by (auto simp: ciPrefix_def canonicalize_def list_eq_iff_nth_eq eval_nat_numeral split: if_splits)
  from len have "take 7 s = take 6 s @ [s ! 6]"
    using take_Suc_conv_app_nth[of 6 s] by simp
  moreover from t have "isWordChar (s ! 6)"
    by (auto simp: canonicalize_def isWordChar_def split: if_splits)
  ultimately show ?thesis by simp
qed

lemma match_script: "map_option snd (match scriptRegex Some (b, s)) = scriptFragment s"
proof (cases "ciPrefix ''<script'' s")
  case False
  then show ?thesis
    by (simp add: scriptRegex_def match_lit scriptFragment_def opensFragment_def)
next
  case True
  let ?rest = "Seq (Star group) (lit ''</script>'')"
  let ?k = "match ?rest Some"
  obtain t bs where tb: "rev (take 7 s) @ b = t # bs" and wt: "isWordChar t"
    using ciPrefix_open_last[OF True, of b] by blast
  have kfail: "\<And>b a as. a \<noteq> 60 \<Longrightarrow> ?k (b, a # as) = None"
    using tail_fail by simp
  have after: "match (Star (NotChr 60)) ?k (t # bs, drop 7 s)
                 = ?k (rev (takeWhile (\<lambda>c. c \<noteq> 60) (drop 7 s)) @ t # bs, dropWhile (\<lambda>c. c \<noteq> 60) (drop 7 s))"
    using star_notlt[of ?k "t # bs" "drop 7 s", OF kfail] by simp
  have tail: "map_option snd (?k (rev (takeWhile (\<lambda>c. c \<noteq> 60) (drop 7 s)) @ t # bs, dropWhile (\<lambda>c. c \<noteq> 60) (drop 7 s)))
                = fragmentEnd (drop 7 s)"
    using tail_find[of _ "drop 7 s"] by simp
  have "match scriptRegex Some (b, s)
          = match WordBoundary (match (Star (NotChr 60)) ?k) (t # bs, drop 7 s)"
    using True tb by (simp add: scriptRegex_def match_lit eval_nat_numeral)
  also have "\<dots> = (if opensFragment s then match (Star (NotChr 60)) ?k (t # bs, drop 7 s) else None)"
    using True wt by (auto simp: opensFragment_def split: list.splits)
  finally show ?thesis
    using after tail by (simp add: scriptFragment_def)
qed

lemma fragmentEnd_length: "fragmentEnd s = Some r \<Longrightarrow> length r < length s"
proof (induction s)
  case Nil
  then show ?case by simp
next
  case (Cons a as)
  then show ?case by (auto split: if_splits)
qed

lemma scriptFragment_length: "scriptFragment s = Some r \<Longrightarrow> length r < length s"
  using fragmentEnd_length[of "drop 7 s" r] by (auto simp: scriptFragment_def split: if_splits)

lemma replaceAll_script: "replaceAll scriptRegex (b, s) = removeFragments s"
proof (induction s arbitrary: b rule: removeFragments.induct)
  case 1
  have "scriptFragment [] = None" by (simp add: scriptFragment_def opensFragment_def ciPrefix_def)
  then have "match scriptRegex Some (b, []) = None"
    using match_script[of b "[]"] by simp
  then show ?case by (subst replaceAll.simps) simp
next
  case (2 c cs)
  show ?case
  proof (cases "scriptFragment (c # cs)")
    case None
    then have "match scriptRegex Some (b, c # cs) = None"
      using match_script[of b "c # cs"] by simp
    then show ?thesis using None 2(1)[OF None, of "c # b"]
      by (subst replaceAll.simps) simp
  next
    case (Some rest)
    then obtain b' where m: "match scriptRegex Some (b, c # cs) = Some (b', rest)"
      using match_script[of b "c # cs"] by (cases "match scriptRegex Some (b, c # cs)") auto
    have "length rest < length (c # cs)" using scriptFragment_length[OF Some] .
    then show ?thesis using Some m 2(2)[OF Some, of b']
      by (subst replaceAll.simps) simp
  qed
qed

lemma removeFragments_noLt: "60 \<notin> set s \<Longrightarrow> removeFragments s = s"
proof (induction s)
  case Nil
  then show ?case by simp
next
  case (Cons c cs)
  then have "\<not> ciPrefix ''<script'' (c # cs)"
    by (auto simp: ciPrefix_def canonicalize_def split: if_splits)
  then show ?case using Cons by (simp add: scriptFragment_def opensFragment_def)
qed

lemma removeFragments_example:
  "removeFragments (js ''hi <script>alert(1)</script> there'') = js ''hi  there''"
  by (simp add: js_def scriptFragment_def opensFragment_def ciPrefix_def canonicalize_def
      isWordChar_def)

lemma sanitizeInput_spec: "sanitizeInput s = sanitize_spec s"
  by (simp add: sanitizeInput_def sanitize_spec_def replaceAll_script)

lemma trim_no_ws:
  assumes "s = [] \<or> (\<not> isWhiteSpace (hd s) \<and> \<not> isWhiteSpace (last s))"
  shows "trim s = s"
proof (cases s)
  case Nil
  then show ?thesis by (simp add: trim_def)
next
  case (Cons a as)
  with assms have h: "\<not> isWhiteSpace a" and l: "\<not> isWhiteSpace (last s)" by auto
  from h Cons have 1: "dropWhile isWhiteSpace s = s" by simp
  have "hd (rev s) = last s" by (rule hd_rev)
  with l have 2: "dropWhile isWhiteSpace (rev s) = rev s"
    by (simp only: dropWhile_eq_self_iff) simp
  show ?thesis by (simp add: trim_def 1 2)
qed

lemma sanitizeInput_plain:
  assumes "60 \<notin> set s" and "62 \<notin> set s"
    and "s = [] \<or> (\<not> isWhiteSpace (hd s) \<and> \<not> isWhiteSpace (last s))"
  shows "sanitizeInput s = take 1000 s"
proof -
  have "filter (\<lambda>c. c \<noteq> 60 \<and> c \<noteq> 62) s = s"
    using assms(1,2) by (auto intro: filter_True)
  then show ?thesis
    using assms by (simp add: sanitizeInput_spec sanitize_spec_def trim_no_ws removeFragments_noLt)
qed

lemma sanitizeInput_Nil [simp]: "sanitizeInput [] = []"
  by (simp add: sanitizeInput_plain)

lemma sanitizeInput_no_brackets: "60 \<notin> set (sanitizeInput s) \<and> 62 \<notin> set (sanitizeInput s)"
  by (auto simp: sanitizeInput_def dest: in_set_takeD)

lemma sanitizeInput_length: "length (sanitizeInput s) \<le> 1000"
  by (simp add: sanitizeInput_def)

lemma sanitizeInput_long:
  "sanitizeInput (js (replicate 2000 CHR ''a'')) = js (replicate 1000 CHR ''a'')"
proof -
  have "js (replicate 2000 CHR ''a'') = replicate 2000 97" by (simp add: js_def)
  moreover have "js (replicate 1000 CHR ''a'') = replicate 1000 97" by (simp add: js_def)
  moreover have "sanitizeInput (replicate 2000 97) = take 1000 (replicate 2000 97)"
    by (rule sanitizeInput_plain) (simp_all add: isWhiteSpace_def)
  ultimately show ?thesis by simp
qed

lemma sanitizeInput_script:
  "sanitizeInput (js ''hi <script>alert(1)</script> there'') = js ''hi  there''"
proof -
  have "trim (js ''hi <script>alert(1)</script> there'') = js ''hi <script>alert(1)</script> there''"
    by (rule trim_no_ws) (simp add: js_def isWhiteSpace_def)
  then show ?thesis
    by (simp add: sanitizeInput_spec sanitize_spec_def removeFragments_example) (simp add: js_def)
qed

text \<open>
  Trimming does not see white space around a text, and a fragment is recognised whatever
  the letter case of its two tags.
\<close>

lemma isWhiteSpace_iff:
  "isWhiteSpace c \<longleftrightarrow>
     c \<in> {9, 10, 11, 12, 13, 32, 160, 5760, 8232, 8233, 8239, 8287, 12288, 65279} \<union> {8192..8202}"
  by (auto simp: isWhiteSpace_def)

lemma isWordChar_iff:
  "isWordChar c \<longleftrightarrow> c \<in> {48..57} \<union> {65..90} \<union> {95} \<union> {97..122}"
  by (auto simp: isWordChar_def)

lemma trim_outer:
  assumes "\<forall>c\<in>set ws. isWhiteSpace c" and "\<forall>c\<in>set ws'. isWhiteSpace c"
  shows "trim (ws @ s @ ws') = trim s"
proof -
  let ?d = "dropWhile isWhiteSpace"
  have 1: "?d (ws @ s @ ws') = ?d (s @ ws')"
    using assms(1) by (simp add: dropWhile_append2)
  show ?thesis
  proof (cases "\<forall>c\<in>set s. isWhiteSpace c")
    case True
    then have a: "?d (ws @ s @ ws') = []" using assms by auto
    from True have b: "?d s = []" by auto
    show ?thesis unfolding trim_def a b by simp
  next
    case False
    then have 2: "?d (s @ ws') = ?d s @ ws'" by (auto simp: dropWhile_append1)
    have "?d (rev ws' @ rev (?d s)) = ?d (rev (?d s))"
      using assms(2) by (intro dropWhile_append2) simp
    then show ?thesis by (simp add: trim_def 1 2)
  qed
qed

lemma removeFragments_prefix: "60 \<notin> set pre \<Longrightarrow> removeFragments (pre @ s) = pre @ removeFragments s"
proof (induction pre)
  case Nil
  then show ?case by simp
next
  case (Cons c cs)
  then have "\<not> ciPrefix ''<script'' (c # cs @ s)"
    by (auto simp: ciPrefix_def canonicalize_def split: if_splits)
  then show ?case using Cons by (simp add: scriptFragment_def opensFragment_def)
qed

lemma variant_ciPrefix:
  assumes "list_all2 (\<lambda>c p. c = p \<or> (97 \<le> p \<and> p \<le> 122 \<and> c + 32 = p)) xs (js w)"
  shows "ciPrefix w (xs @ rest) \<and> length xs = length w"
proof -
  have len: "length xs = length w" using assms by (auto simp: js_def dest: list_all2_lengthD)
  have "map canonicalize xs = map (\<lambda>c. canonicalize (of_char c)) w"
    using assms unfolding js_def list_all2_map2
    by (induction xs w rule: list_all2_induct) (auto simp: canonicalize_def)
  then show ?thesis using len by (simp add: ciPrefix_def)
qed

lemma removeFragments_fragment:
  assumes o: "list_all2 (\<lambda>c p. c = p \<or> (97 \<le> p \<and> p \<le> 122 \<and> c + 32 = p)) otag (js ''<script'')"
    and c: "list_all2 (\<lambda>c p. c = p \<or> (97 \<le> p \<and> p \<le> 122 \<and> c + 32 = p)) ctag (js ''</script>'')"
    and i: "60 \<notin> set inner" "inner = [] \<or> \<not> isWordChar (hd inner)"
  shows "removeFragments (otag @ inner @ ctag @ post) = removeFragments post"
proof -
  from variant_ciPrefix[OF o, of "inner @ ctag @ post"]
  have po: "ciPrefix ''<script'' (otag @ inner @ ctag @ post)" and lo: "length otag = 7" by simp_all
  from variant_ciPrefix[OF c, of post]
  have pc: "ciPrefix ''</script>'' (ctag @ post)" and lc: "length ctag = 9" by simp_all
  from lc obtain c0 cs where cl: "ctag = c0 # cs" by (cases ctag) auto
  with pc have c0: "c0 = 60" using ciPrefix_close_hd[of c0 "cs @ post"] by simp
  have nw: "\<not> isWordChar 60" by (simp add: isWordChar_def)
  from lo obtain o0 os where op: "otag = o0 # os" by (cases otag) auto
  have opens: "opensFragment (otag @ inner @ ctag @ post)"
    using po lo i(2) nw cl c0 by (cases inner) (auto simp: opensFragment_def)
  have d1: "dropWhile (\<lambda>c. c \<noteq> 60) (inner @ ctag @ post)
              = dropWhile (\<lambda>c. c \<noteq> 60) (ctag @ post)"
    using i(1) by (intro dropWhile_append2) auto
  have d2: "dropWhile (\<lambda>c. c \<noteq> 60) (ctag @ post) = ctag @ post"
    unfolding cl c0 by simp
  have d3: "drop 9 (ctag @ post) = post" using lc by simp
  have "fragmentEnd (ctag @ post) = Some (drop 9 (ctag @ post))"
    using pc unfolding cl by simp
  then have d4: "fragmentEnd (ctag @ post) = Some post" unfolding d3 .
  have "fragmentEnd (inner @ ctag @ post)
          = fragmentEnd (dropWhile (\<lambda>c. c \<noteq> 60) (inner @ ctag @ post))"
    by (rule fragmentEnd_skip)
  also have "\<dots> = Some post" unfolding d1 d2 d4 ..
  finally have "scriptFragment (otag @ inner @ ctag @ post) = Some post"
    using opens lo by (simp add: scriptFragment_def)
  then show ?thesis unfolding op by simp
qed

lemma sanitizeInput_fragment:
  assumes o: "list_all2 (\<lambda>c p. c = p \<or> (97 \<le> p \<and> p \<le> 122 \<and> c + 32 = p)) otag (js ''<script'')"
    and c: "list_all2 (\<lambda>c p. c = p \<or> (97 \<le> p \<and> p \<le> 122 \<and> c + 32 = p)) ctag (js ''</script>'')"
    and i: "60 \<notin> set inner" "inner = [] \<or> \<not> isWordChar (hd inner)"
    and pre: "60 \<notin> set pre" "pre \<noteq> []" "\<not> isWhiteSpace (hd pre)"
    and post: "post \<noteq> []" "\<not> isWhiteSpace (last post)"
  shows "sanitizeInput (pre @ otag @ inner @ ctag @ post) = sanitizeInput (pre @ post)"
proof -
  have t1: "trim (pre @ otag @ inner @ ctag @ post) = pre @ otag @ inner @ ctag @ post"
    using pre post by (intro trim_no_ws) simp
  have t2: "trim (pre @ post) = pre @ post"
    using pre post by (intro trim_no_ws) simp
  show ?thesis
    unfolding sanitizeInput_spec sanitize_spec_def t1 t2
    by (simp add: removeFragments_prefix[OF pre(1)] removeFragments_fragment[OF o c i])
qed


lemma sanitizeInput_outer:
  assumes "\<forall>c\<in>set ws. isWhiteSpace c" and "\<forall>c\<in>set ws'. isWhiteSpace c"
  shows "sanitizeInput (ws @ s @ ws') = sanitizeInput s"
  by (simp add: sanitizeInput_spec sanitize_spec_def trim_outer[OF assms])

lemma sanitizeInput_eval:
  assumes "s \<noteq> []" and "\<not> isWhiteSpace (hd s)" and "\<not> isWhiteSpace (last s)"
    and "removeFragments s = r"
  shows "sanitizeInput s = take 1000 (filter (\<lambda>c. c \<noteq> 60 \<and> c \<noteq> 62) r)"
  using assms by (simp add: sanitizeInput_spec sanitize_spec_def trim_no_ws)

lemmas fragment_simps =
  js_def scriptFragment_def opensFragment_def ciPrefix_def canonicalize_def isWordChar_def

lemma sanitizeInput_mixed:
  "sanitizeInput ([9, 32, 160] @ js ''Hi <SCRIPT src=x>alert(1)</ScRiPt> there'' @ [10, 8232, 65279])
     = js ''Hi  there''"
proof -
  have "sanitizeInput (js ''Hi <SCRIPT src=x>alert(1)</ScRiPt> there'') =
          take 1000 (filter (\<lambda>c. c \<noteq> 60 \<and> c \<noteq> 62) (js ''Hi  there''))"
    by (rule sanitizeInput_eval) (simp_all add: fragment_simps isWhiteSpace_def)
  then have "sanitizeInput (js ''Hi <SCRIPT src=x>alert(1)</ScRiPt> there'') = js ''Hi  there''"
    by (simp add: js_def)
  moreover have "sanitizeInput ([9, 32, 160] @ js ''Hi <SCRIPT src=x>alert(1)</ScRiPt> there'' @ [10, 8232, 65279])
      = sanitizeInput (js ''Hi <SCRIPT src=x>alert(1)</ScRiPt> there'')"
    by (rule sanitizeInput_outer) (simp_all add: isWhiteSpace_def)
  ultimately show ?thesis by simp
qed

lemma sanitizeInput_order_trim:
  "sanitizeInput (js ''<script>x</script> a'') = js '' a''"
proof -
  have "sanitizeInput (js ''<script>x</script> a'') =
          take 1000 (filter (\<lambda>c. c \<noteq> 60 \<and> c \<noteq> 62) (js '' a''))"
    by (rule sanitizeInput_eval) (simp_all add: fragment_simps isWhiteSpace_def)
  then show ?thesis by (simp add: js_def)
qed

lemma sanitizeInput_brackets:
  "sanitizeInput (js ''a<b>c'') = js ''abc''"
proof -
  have "sanitizeInput (js ''a<b>c'') =
          take 1000 (filter (\<lambda>c. c \<noteq> 60 \<and> c \<noteq> 62) (js ''a<b>c''))"
    by (rule sanitizeInput_eval) (simp_all add: fragment_simps isWhiteSpace_def)
  then show ?thesis by (simp add: js_def)
qed

lemma sanitizeInput_boundary:
  "sanitizeInput (js ''<scriptx>1</script>'') = js ''scriptx1/script''"
proof -
  have "sanitizeInput (js ''<scriptx>1</script>'') =
          take 1000 (filter (\<lambda>c. c \<noteq> 60 \<and> c \<noteq> 62) (js ''<scriptx>1</script>''))"
    by (rule sanitizeInput_eval) (simp_all add: fragment_simps isWhiteSpace_def)
  then show ?thesis by (simp add: js_def)
qed

lemma sanitizeInput_single_pass:
  "sanitizeInput (js ''<scr<script></script>ipt>x'') = js ''scriptx''"
proof -
  have "sanitizeInput (js ''<scr<script></script>ipt>x'') =
          take 1000 (filter (\<lambda>c. c \<noteq> 60 \<and> c \<noteq> 62) (js ''<script>x''))"
    by (rule sanitizeInput_eval) (simp_all add: fragment_simps isWhiteSpace_def)
  then show ?thesis by (simp add: js_def)
qed

lemma sanitizeInput_order_slice:
  "sanitizeInput (replicate 995 97 @ js ''<script>x</script>bbbbbbbbbb'')
     = replicate 995 97 @ js ''bbbbb''"
proof -
  have r: "removeFragments (js ''<script>x</script>bbbbbbbbbb'') = js ''bbbbbbbbbb''"
    by (simp add: fragment_simps)
  have "removeFragments (replicate 995 97 @ js ''<script>x</script>bbbbbbbbbb'')
          = replicate 995 97 @ js ''bbbbbbbbbb''"
    by (simp add: removeFragments_prefix r)
  then have "sanitizeInput (replicate 995 97 @ js ''<script>x</script>bbbbbbbbbb'') =
          take 1000 (filter (\<lambda>c. c \<noteq> 60 \<and> c \<noteq> 62) (replicate 995 97 @ js ''bbbbbbbbbb''))"
    by (intro sanitizeInput_eval) (simp_all add: isWhiteSpace_def js_def)
  then show ?thesis by (simp add: js_def)
qed

section \<open>Facts about the quota tracker\<close>

text \<open>
  The sweep keeps the live records and nothing else, and \<open>checkRateLimit\<close> has three
  outcomes: a new window, one more request in the window, and a rejection.
\<close>

lemma sweep_idem: "sweep now (sweep now st) = sweep now st"
  by (rule ext) (simp add: sweep_def split: option.splits)

lemma sweep_mono: "t1 \<le> t2 \<Longrightarrow> sweep t2 (sweep t1 st) = sweep t2 st"
  by (rule ext) (auto simp: sweep_def split: option.splits)

lemma sweep_live: "st k = Some e \<Longrightarrow> now \<le> resetTime e \<Longrightarrow> sweep now st k = Some e"
  by (simp add: sweep_def)

lemma sweep_expired: "st k = None \<or> (\<exists>e. st k = Some e \<and> now > resetTime e) \<Longrightarrow> sweep now st k = None"
  by (auto simp: sweep_def)

lemma sweep_cases: "sweep now st k = None \<or> sweep now st k = st k"
  by (simp add: sweep_def split: option.splits)

lemma sweep_Some: "sweep now st k = Some e \<Longrightarrow> st k = Some e \<and> now \<le> resetTime e"
  by (auto simp: sweep_def split: option.splits if_splits)

lemma sweep_none_expired:
  "sweep now st = st" if "\<And>k e. st k = Some e \<Longrightarrow> now \<le> resetTime e"
proof (rule ext)
  fix k
  show "sweep now st k = st k"
  proof (cases "st k")
    case None
    then show ?thesis by (simp add: sweep_def)
  next
    case (Some e)
    with that[of k e] show ?thesis by (simp add: sweep_def)
  qed
qed

lemma sweep_empty [simp]: "sweep now Map.empty = Map.empty"
  by (rule ext) (simp add: sweep_def)

lemma sweep_forget: "sweep now (st(ip := None)) = (sweep now st)(ip := None)"
  by (rule ext) (simp add: sweep_def)

lemma check_fresh:
  assumes "st ip = None \<or> (\<exists>e. st ip = Some e \<and> now > resetTime e)"
  shows "checkRateLimit ip now st =
           (\<lparr>allowed = True, remaining = 49\<rparr>,
            (sweep now st)(ip \<mapsto> \<lparr>count = 1, resetTime = now + dayMs\<rparr>))"
  using sweep_expired[of st ip now, OF assms] by (simp add: checkRateLimit_def dailyLimit_def)

lemma check_live:
  assumes "st ip = Some e" and "now \<le> resetTime e" and "count e < dailyLimit"
  shows "checkRateLimit ip now st =
           (\<lparr>allowed = True, remaining = dailyLimit - (count e + 1)\<rparr>,
            (sweep now st)(ip \<mapsto> e\<lparr>count := count e + 1\<rparr>))"
  using sweep_live[of st ip e now, OF assms(1,2)] assms(2,3) by (simp add: checkRateLimit_def)

lemma check_full:
  assumes "st ip = Some e" and "now \<le> resetTime e" and "count e \<ge> dailyLimit"
  shows "checkRateLimit ip now st = (\<lparr>allowed = False, remaining = 0\<rparr>, sweep now st)"
  using sweep_live[of st ip e now, OF assms(1,2)] assms(2,3) by (simp add: checkRateLimit_def)

lemma check_other: "k \<noteq> ip \<Longrightarrow> snd (checkRateLimit ip now st) k = sweep now st k"
  by (simp add: checkRateLimit_def Let_def split: option.splits)

lemma check_sweep: "checkRateLimit ip now (sweep now st) = checkRateLimit ip now st"
  by (simp add: checkRateLimit_def sweep_idem)

lemma check_expired_as_first:
  assumes "st ip = Some e" and "now > resetTime e"
  shows "checkRateLimit ip now st = checkRateLimit ip now (st(ip := None))"
proof -
  have 1: "checkRateLimit ip now st =
      (\<lparr>allowed = True, remaining = 49\<rparr>, (sweep now st)(ip \<mapsto> \<lparr>count = 1, resetTime = now + dayMs\<rparr>))"
    using check_fresh[of st ip now] assms by blast
  have 2: "checkRateLimit ip now (st(ip := None)) =
      (\<lparr>allowed = True, remaining = 49\<rparr>,
       (sweep now (st(ip := None)))(ip \<mapsto> \<lparr>count = 1, resetTime = now + dayMs\<rparr>))"
    using check_fresh[of "st(ip := None)" ip now] by simp
  show ?thesis unfolding 1 2 by (simp add: sweep_forget)
qed

lemma check_after_allowed:
  assumes "checkRateLimit ip now st = (r1, s1)" and "allowed r1"
  shows "\<exists>e. s1 ip = Some e \<and> remaining r1 = dailyLimit - count e \<and> count e \<le> dailyLimit"
proof (cases "sweep now st ip")
  case None
  then show ?thesis using assms by (auto simp: checkRateLimit_def dailyLimit_def)
next
  case (Some e)
  then show ?thesis using assms
    by (auto simp: checkRateLimit_def Let_def dailyLimit_def split: if_splits)
qed

lemma check_next:
  assumes "checkRateLimit ip now st = (r1, s1)" and "allowed r1"
    and "s1 ip = Some e" and "later \<le> resetTime e"
  shows "fst (checkRateLimit ip later s1) =
           (if remaining r1 > 0 then \<lparr>allowed = True, remaining = remaining r1 - 1\<rparr>
            else \<lparr>allowed = False, remaining = 0\<rparr>)"
proof -
  from check_after_allowed[OF assms(1,2)] assms(3)
  have r: "remaining r1 = dailyLimit - count e" and c: "count e \<le> dailyLimit" by auto
  show ?thesis
  proof (cases "count e < dailyLimit")
    case True
    then show ?thesis using check_live[of s1 ip e later] assms(3,4) r by simp
  next
    case False
    then show ?thesis using check_full[of s1 ip e later] assms(3,4) r c by simp
  qed
qed

lemma sweep_countsOk: "countsOk st \<Longrightarrow> countsOk (sweep now st)"
  unfolding countsOk_def using sweep_Some by blast

lemma check_countsOk:
  assumes "countsOk st"
  shows "countsOk (snd (checkRateLimit ip now st))"
proof -
  have sw: "countsOk (sweep now st)" using assms by (rule sweep_countsOk)
  show ?thesis
  proof (cases "sweep now st ip")
    case None
    then show ?thesis using sw
      by (auto simp: checkRateLimit_def countsOk_def dailyLimit_def)
  next
    case (Some e)
    then have "1 \<le> count e" using sw unfolding countsOk_def by blast
    then have "0 \<le> count e" by simp
    then show ?thesis using sw Some
      by (auto simp: checkRateLimit_def countsOk_def Let_def dailyLimit_def)
  qed
qed

section \<open>Facts about the handlers\<close>

text \<open>
  \<open>GET\<close> changes the store by the sweep only. \<open>POST\<close> answers a request that fails the
  payload checks without touching the store, and answers an accepted request from the
  result of \<open>checkRateLimit\<close>.
\<close>

lemma GET_store: "snd (GET request now st) = sweep now st"
  by (simp add: GET_def Let_def split: option.splits)

lemma GET_never_creates:
  "snd (GET request now st) k = None \<or> snd (GET request now st) k = st k"
  by (simp add: GET_store sweep_cases)

lemma GET_live:
  assumes "st (getClientIP probe) = Some e" and "now \<le> resetTime e"
  shows "fst (GET probe now st) =
           \<lparr>status = 200, payload = StatusBody (max 0 (dailyLimit - count e)) (resetTime e)\<rparr>"
  using sweep_live[of st "getClientIP probe" e now] assms by (simp add: GET_def)

lemma GET_fresh:
  assumes "st (getClientIP probe) = None \<or> (\<exists>e. st (getClientIP probe) = Some e \<and> now > resetTime e)"
  shows "fst (GET probe now st) = \<lparr>status = 200, payload = StatusBody dailyLimit (now + dayMs)\<rparr>"
  using sweep_expired[of st "getClientIP probe" now] assms by (simp add: GET_def)


lemma pickFallback_pool:
  assumes "0 \<le> r" and "r < 1"
  shows "\<exists>m. pickFallback r = Some m \<and> m \<in> set FALLBACK_RESPONSES"
proof -
  have len: "length FALLBACK_RESPONSES = 5" by (simp add: FALLBACK_RESPONSES_def)
  from assms have "0 \<le> \<lfloor>r * 5\<rfloor>" by simp
  moreover from assms have "\<lfloor>r * 5\<rfloor> < 5" by (simp add: floor_less_iff)
  ultimately show ?thesis
    by (simp add: pickFallback_def len Let_def nat_less_iff)
qed

lemma pick_half: "pickFallback (1 / 2) = Some (FALLBACK_RESPONSES ! 2)"
  by (simp add: pickFallback_def FALLBACK_RESPONSES_def)

lemma limit_message_fixed: "LIMIT_MESSAGE \<notin> set FALLBACK_RESPONSES"
  by (simp add: LIMIT_MESSAGE_def FALLBACK_RESPONSES_def js_def)

lemma POST_store:
  "snd (POST request e st) =
     (if accepted request then snd (checkRateLimit (getClientIP request) (clock e) st) else st)"
  by (simp add: POST_def accepted_def Let_def split: option.splits sum.splits prod.splits upstream.splits)

lemma POST_no_body: "bodyJson request = None \<Longrightarrow> POST request e st = (Some (POST_catch e), st)"
  by (simp add: POST_def)

lemma POST_null: "bodyJson request = Some JNull \<Longrightarrow> POST request e st = (Some (POST_catch e), st)"
  by (simp add: POST_def)

lemma destructure_Inl: "destructureMessage v = Inl err \<longleftrightarrow> v = JNull"
  by (cases v; cases err) simp_all

lemma POST_rejected:
  assumes "bodyJson request = Some v" and "destructureMessage v = Inr m"
    and "\<not> truthy m \<or> typeof m \<noteq> ''string'' \<or> sanitizeInput (stringValue m) = []"
  shows "\<exists>msg. POST request e st = (Some \<lparr>status = 400, payload = ErrorBody msg\<rparr>, st)"
  using assms by (auto simp: POST_def)

lemma POST_accepted:
  assumes "accepted request"
    and "checkRateLimit (getClientIP request) (clock e) st = (rl, st')"
  shows "POST request e st =
     (if \<not> allowed rl then
        (Some \<lparr>status = 200, payload = ChatBody (Some LIMIT_MESSAGE) True 0\<rparr>, st')
      else if \<not> truthyString (apiKey e) then
        (Some \<lparr>status = 200, payload = ChatBody (pickFallback (random e)) True (remaining rl)\<rparr>, st')
      else
        (case generate e (requestPrompt request) of
           Pending \<Rightarrow> (None, st')
         | Rejected \<Rightarrow>
             (Some \<lparr>status = 200, payload = ChatBody (pickFallback (random e)) True (remaining rl)\<rparr>, st')
         | Resolved text \<Rightarrow>
             if \<not> truthyString text then
               (Some \<lparr>status = 200, payload = ChatBody (pickFallback (random e)) True (remaining rl)\<rparr>, st')
             else
               (Some \<lparr>status = 200, payload = ChatBody text False (remaining rl)\<rparr>, st')))"
proof -
  from assms(1) obtain v m where v: "bodyJson request = Some v"
    and m: "destructureMessage v = Inr m"
    and ok: "truthy m" "typeof m = ''string''" "sanitizeInput (stringValue m) \<noteq> []"
    by (auto simp: accepted_def split: option.splits sum.splits)
  have p: "requestPrompt request = promptFor (sanitizeInput (stringValue m))"
    by (simp add: requestPrompt_def v m)
  show ?thesis
    unfolding p by (simp add: POST_def v m ok assms(2) Let_def)
qed

lemma accepted_cases:
  "accepted request \<or> bodyJson request = None \<or> bodyJson request = Some JNull
   \<or> (\<exists>v m. bodyJson request = Some v \<and> destructureMessage v = Inr m \<and>
        (\<not> truthy m \<or> typeof m \<noteq> ''string'' \<or> sanitizeInput (stringValue m) = []))"
  by (auto simp: accepted_def destructure_Inl split: option.splits sum.splits)

lemma request_cases [case_names accepted no_body null rejected]:
  obtains "accepted request"
  | "bodyJson request = None"
  | "bodyJson request = Some JNull"
  | v m where "bodyJson request = Some v" "destructureMessage v = Inr m"
        "\<not> truthy m \<or> typeof m \<noteq> ''string'' \<or> sanitizeInput (stringValue m) = []"
  using accepted_cases[of request] by (elim disjE exE conjE) auto

lemma POST_accepted_status:
  assumes "accepted request" and "fst (POST request e st) = Some r"
  shows "status r = 200"
proof -
  obtain rl st' where c: "checkRateLimit (getClientIP request) (clock e) st = (rl, st')"
    by (cases "checkRateLimit (getClientIP request) (clock e) st")
  show ?thesis
    using assms(2) unfolding POST_accepted[OF assms(1) c]
    by (auto split: if_splits upstream.splits)
qed


lemma POST_status_400_iff:
  "(\<exists>r. fst (POST request e st) = Some r \<and> status r = 400) \<longleftrightarrow>
     (\<exists>v m. bodyJson request = Some v \<and> destructureMessage v = Inr m \<and>
        (\<not> truthy m \<or> typeof m \<noteq> ''string'' \<or> sanitizeInput (stringValue m) = []))"
proof
  assume "\<exists>r. fst (POST request e st) = Some r \<and> status r = 400"
  then obtain r where r: "fst (POST request e st) = Some r" "status r = 400" by blast
  show "\<exists>v m. bodyJson request = Some v \<and> destructureMessage v = Inr m \<and>
        (\<not> truthy m \<or> typeof m \<noteq> ''string'' \<or> sanitizeInput (stringValue m) = [])"
  proof (cases rule: request_cases[of request])
    case accepted
    from POST_accepted_status[OF accepted r(1)] r(2) show ?thesis by simp
  next
    case no_body
    from POST_no_body[OF no_body, of e st] r show ?thesis by (auto simp: POST_catch_def)
  next
    case null
    from POST_null[OF null, of e st] r show ?thesis by (auto simp: POST_catch_def)
  next
    case (rejected v m)
    then show ?thesis by auto
  qed
next
  assume "\<exists>v m. bodyJson request = Some v \<and> destructureMessage v = Inr m \<and>
        (\<not> truthy m \<or> typeof m \<noteq> ''string'' \<or> sanitizeInput (stringValue m) = [])"
  then obtain v m where "bodyJson request = Some v" "destructureMessage v = Inr m"
    "\<not> truthy m \<or> typeof m \<noteq> ''string'' \<or> sanitizeInput (stringValue m) = []" by blast
  from POST_rejected[OF this, of e st] show "\<exists>r. fst (POST request e st) = Some r \<and> status r = 400"
    by auto
qed

lemma POST_fallback:
  assumes "accepted request"
    and "checkRateLimit (getClientIP request) (clock e) st = (rl, st')" and "allowed rl"
    and "0 \<le> random e" and "random e < 1"
    and "\<not> truthyString (apiKey e) \<or> generate e (requestPrompt request) = Rejected
         \<or> (\<exists>t. generate e (requestPrompt request) = Resolved t \<and> \<not> truthyString t)"
  shows "\<exists>m\<in>set FALLBACK_RESPONSES.
           POST request e st =
             (Some \<lparr>status = 200, payload = ChatBody (Some m) True (remaining rl)\<rparr>, st')"
proof -
  from pickFallback_pool[OF assms(4,5)] obtain m
    where m: "pickFallback (random e) = Some m" "m \<in> set FALLBACK_RESPONSES" by blast
  have "POST request e st =
          (Some \<lparr>status = 200, payload = ChatBody (Some m) True (remaining rl)\<rparr>, st')"
    using assms(3,6) unfolding POST_accepted[OF assms(1,2)] by (auto simp: m)
  with m(2) show ?thesis by blast
qed

lemma POST_pending_iff:
  "fst (POST request e st) = None \<longleftrightarrow>
     accepted request \<and> allowed (fst (checkRateLimit (getClientIP request) (clock e) st))
     \<and> truthyString (apiKey e) \<and> generate e (requestPrompt request) = Pending"
proof (cases "accepted request")
  case True
  obtain rl st' where c: "checkRateLimit (getClientIP request) (clock e) st = (rl, st')"
    by (cases "checkRateLimit (getClientIP request) (clock e) st")
  show ?thesis
    unfolding POST_accepted[OF True c] using True c
    by (auto split: upstream.splits)
next
  case False
  have "fst (POST request e st) \<noteq> None"
  proof (cases rule: request_cases[of request])
    case accepted
    with False show ?thesis by simp
  next
    case no_body
    from POST_no_body[OF no_body, of e st] show ?thesis by simp
  next
    case null
    from POST_null[OF null, of e st] show ?thesis by simp
  next
    case (rejected v m)
    from POST_rejected[OF rejected, of e st] show ?thesis by auto
  qed
  with False show ?thesis by simp
qed

lemma POST_same_check:
  assumes "checkRateLimit (getClientIP request) (clock e) st
         = checkRateLimit (getClientIP request) (clock e) st2"
  shows "fst (POST request e st) = fst (POST request e st2)"
  using assms
  by (simp add: POST_def Let_def split: option.splits sum.splits prod.splits upstream.splits)

section \<open>Facts about runs\<close>

text \<open>
  Inside the window of a caller's record, a request changes the record only when it
  consumes quota for that caller, and then it adds one to the count.
\<close>

lemma run_Cons: "run (ev # evs) st = run evs (step ev st)"
  by (simp add: run_def)

lemma step_countsOk: "countsOk st \<Longrightarrow> countsOk (step ev st)"
  by (cases ev) (simp_all add: POST_store GET_store check_countsOk sweep_countsOk)

lemma reachable_countsOk: "reachable st \<Longrightarrow> countsOk st"
proof (induction rule: reachable.induct)
  case initial
  show ?case by (simp add: countsOk_def)
next
  case (after st ev)
  then show ?case by (intro step_countsOk)
qed

lemma run_reachable: "reachable st \<Longrightarrow> reachable (run evs st)"
proof (induction evs arbitrary: st)
  case Nil
  then show ?case by (simp add: run_def)
next
  case (Cons ev evs)
  have "reachable (step ev st)" using Cons.prems by (rule reachable.after)
  then have "reachable (run evs (step ev st))" by (rule Cons.IH)
  then show ?case by (simp add: run_def)
qed

lemma step_frame:
  assumes "st ip = Some e" and "eventTime ev \<le> resetTime e" and "\<not> consumesFor ip ev"
  shows "step ev st ip = Some e"
proof (cases ev)
  case (Get request now)
  then show ?thesis using assms sweep_live[of st ip e now] by (simp add: GET_store)
next
  case (Post request en)
  show ?thesis
  proof (cases "accepted request")
    case False
    then show ?thesis using Post assms by (simp add: POST_store)
  next
    case True
    with Post assms have "ip \<noteq> getClientIP request" by auto
    then show ?thesis using Post True assms sweep_live[of st ip e "clock en"]
      by (simp add: POST_store check_other)
  qed
qed

lemma step_consume:
  assumes "st ip = Some e" and "eventTime ev \<le> resetTime e" and "consumesFor ip ev"
    and "count e < dailyLimit"
  shows "step ev st ip = Some (e\<lparr>count := count e + 1\<rparr>)"
proof (cases ev)
  case (Get request now)
  then show ?thesis using assms by simp
next
  case (Post request en)
  then show ?thesis using assms check_live[of st ip e "clock en"]
    by (simp add: POST_store)
qed

lemma first_consume:
  assumes "consumesFor ip ev" and "st ip = None \<or> (\<exists>e. st ip = Some e \<and> eventTime ev > resetTime e)"
  shows "step ev st ip = Some \<lparr>count = 1, resetTime = eventTime ev + dayMs\<rparr>"
proof (cases ev)
  case (Get request now)
  with assms show ?thesis by simp
next
  case (Post request en)
  with assms show ?thesis using check_fresh[of st ip "clock en"]
    by (auto simp: POST_store)
qed

lemma run_window:
  assumes "st ip = Some e" and "\<forall>ev\<in>set evs. eventTime ev \<le> resetTime e"
    and "count e + int (length (filter (consumesFor ip) evs)) \<le> dailyLimit"
  shows "run evs st ip = Some (e\<lparr>count := count e + int (length (filter (consumesFor ip) evs))\<rparr>)"
  using assms
proof (induction evs arbitrary: st e)
  case Nil
  then show ?case by (simp add: run_def)
next
  case (Cons ev evs)
  show ?case
  proof (cases "consumesFor ip ev")
    case True
    with Cons.prems have lt: "count e < dailyLimit" by simp
    have "eventTime ev \<le> resetTime e" using Cons.prems(2) by simp
    then have s: "step ev st ip = Some (e\<lparr>count := count e + 1\<rparr>)"
      using step_consume[of st ip e ev] Cons.prems(1) True lt by blast
    have "run evs (step ev st) ip =
            Some (e\<lparr>count := count e + 1\<rparr>\<lparr>count := count (e\<lparr>count := count e + 1\<rparr>) + int (length (filter (consumesFor ip) evs))\<rparr>)"
      using Cons.prems True by (intro Cons.IH[of "step ev st" "e\<lparr>count := count e + 1\<rparr>"] s) simp_all
    then show ?thesis
      using True by (simp add: run_def add.assoc)
  next
    case False
    have "eventTime ev \<le> resetTime e" using Cons.prems(2) by simp
    then have s: "step ev st ip = Some e"
      using step_frame[of st ip e ev] Cons.prems(1) False by blast
    have "run evs (step ev st) ip =
            Some (e\<lparr>count := count e + int (length (filter (consumesFor ip) evs))\<rparr>)"
      using Cons.prems False by (intro Cons.IH[of "step ev st" e] s) simp_all
    then show ?thesis
      using False by (simp add: run_def)
  qed
qed

lemma peeks_sweep:
  assumes "\<forall>ev\<in>set evs. isPeek ev \<and> eventTime ev \<le> t"
  shows "sweep t (run evs st) = sweep t st"
  using assms
proof (induction evs arbitrary: st)
  case Nil
  then show ?case by (simp add: run_def)
next
  case (Cons ev evs)
  then obtain request now where ev: "ev = Get request now" and le: "now \<le> t"
    by (cases ev) auto
  have "sweep t (run (ev # evs) st) = sweep t (run evs (sweep now st))"
    by (simp add: run_def ev GET_store)
  also have "\<dots> = sweep t (sweep now st)" using Cons by simp
  also have "\<dots> = sweep t st" using le by (rule sweep_mono)
  finally show ?case .
qed

lemma peeks_check:
  assumes "\<forall>ev\<in>set evs. isPeek ev \<and> eventTime ev \<le> t"
  shows "checkRateLimit ip t (run evs st) = checkRateLimit ip t st"
proof -
  have "checkRateLimit ip t (run evs st) = checkRateLimit ip t (sweep t (run evs st))"
    by (simp add: check_sweep)
  also have "\<dots> = checkRateLimit ip t (sweep t st)" using peeks_sweep[OF assms] by simp
  finally show ?thesis by (simp add: check_sweep)
qed

lemma visitor_ip: "getClientIP helloRequest = visitor"
  by (simp add: getClientIP_def helloRequest_def visitor_def truthyString_def js_def)

lemma hello_accepted: "accepted helloRequest"
proof -
  have "sanitizeInput (js ''hello'') = take 1000 (js ''hello'')"
    by (rule sanitizeInput_plain) (simp_all add: js_def isWhiteSpace_def)
  then show ?thesis
    by (simp add: accepted_def helloRequest_def) (simp add: js_def)
qed

lemma hello_consumes: "consumesFor visitor (Post helloRequest e)"
  by (simp add: visitor_ip hello_accepted)

lemma fifty_posts:
  "run (replicate 50 (Post helloRequest (offlineEnv 0))) Map.empty visitor
     = Some \<lparr>count = 50, resetTime = 86400000\<rparr>"
proof -
  let ?ev = "Post helloRequest (offlineEnv 0)"
  let ?s1 = "step ?ev Map.empty"
  have r: "replicate 50 ?ev = ?ev # replicate 49 ?ev"
    using replicate_Suc[of 49 ?ev] by simp
  have s1: "?s1 visitor = Some \<lparr>count = 1, resetTime = 86400000\<rparr>"
    using check_fresh[of Map.empty visitor 0]
    by (simp add: POST_store hello_accepted visitor_ip offlineEnv_def dayMs_def)
  have t: "\<forall>ev\<in>set (replicate 49 ?ev). eventTime ev \<le> resetTime \<lparr>count = 1, resetTime = 86400000\<rparr>"
    by (simp add: offlineEnv_def)
  have f: "filter (consumesFor visitor) (replicate 49 ?ev) = replicate 49 ?ev"
    using hello_consumes by (intro filter_True) simp
  have "run (replicate 49 ?ev) ?s1 visitor =
      Some (\<lparr>count = 1, resetTime = 86400000\<rparr>
             \<lparr>count := count \<lparr>count = 1, resetTime = 86400000\<rparr>
                + int (length (filter (consumesFor visitor) (replicate 49 ?ev)))\<rparr>)"
    using s1 t by (intro run_window) (simp_all add: f dailyLimit_def)
  then show ?thesis unfolding r run_Cons by (simp add: f)
qed

section \<open>The claims\<close>

text \<open>
  C1. \<open>checkRateLimit\<close> meets its contract. Let a call at time \<open>now\<close> return \<open>r1\<close> and
  leave the store \<open>s1\<close>.
  \<^item> A caller with no record, or with a record whose window has expired
    (\<open>now > resetTime\<close>), is allowed with 49 remaining, and its record becomes count 1
    with the window ending 24 hours after \<open>now\<close>.
  \<^item> A caller with a live record and a count below 50 is allowed; the count goes up
    by one and the remaining value is 50 minus the new count.
  \<^item> After an allowed call, the next call of the same caller inside the window returns
    one less, until 0 is reached; from then on it is rejected with 0.
  \<^item> A caller with a live record and a count of 50 or more is rejected with 0
    remaining. The call writes nothing: the caller's record is as before, and the store
    is the one before the call without the records that had expired. Calling again at
    once leaves the store exactly as it is; calling again at any later time inside the
    window is rejected again and leaves the caller's record as it is; and when no record
    of the store has expired the store is not changed at all.
\<close>

theorem checkRateLimit_contract:
  assumes "checkRateLimit ip now st = (r1, s1)"
  shows "(st ip = None \<or> (\<exists>e. st ip = Some e \<and> now > resetTime e) \<longrightarrow>
            r1 = \<lparr>allowed = True, remaining = 49\<rparr> \<and>
            s1 ip = Some \<lparr>count = 1, resetTime = now + 24 * 60 * 60 * 1000\<rparr>)
       \<and> (\<forall>e. st ip = Some e \<and> now \<le> resetTime e \<and> count e < 50 \<longrightarrow>
            r1 = \<lparr>allowed = True, remaining = 50 - (count e + 1)\<rparr> \<and>
            s1 ip = Some (e\<lparr>count := count e + 1\<rparr>))
       \<and> (\<forall>e later. allowed r1 \<and> s1 ip = Some e \<and> later \<le> resetTime e \<longrightarrow>
            fst (checkRateLimit ip later s1) =
              (if remaining r1 > 0 then \<lparr>allowed = True, remaining = remaining r1 - 1\<rparr>
               else \<lparr>allowed = False, remaining = 0\<rparr>))
       \<and> (\<forall>e. st ip = Some e \<and> now \<le> resetTime e \<and> count e \<ge> 50 \<longrightarrow>
            r1 = \<lparr>allowed = False, remaining = 0\<rparr> \<and> s1 = sweep now st \<and> s1 ip = Some e \<and>
            checkRateLimit ip now s1 = (\<lparr>allowed = False, remaining = 0\<rparr>, s1) \<and>
            (\<forall>later. later \<le> resetTime e \<longrightarrow>
               checkRateLimit ip later s1 = (\<lparr>allowed = False, remaining = 0\<rparr>, sweep later s1) \<and>
               sweep later s1 ip = Some e) \<and>
            ((\<forall>k v. st k = Some v \<longrightarrow> now \<le> resetTime v) \<longrightarrow> s1 = st))"
proof (intro conjI allI impI)
  assume "st ip = None \<or> (\<exists>e. st ip = Some e \<and> now > resetTime e)"
  from check_fresh[of st ip now, OF this] assms
  show "r1 = \<lparr>allowed = True, remaining = 49\<rparr>"
    and "s1 ip = Some \<lparr>count = 1, resetTime = now + 24 * 60 * 60 * 1000\<rparr>"
    by (auto simp: dayMs_def)
next
  fix e assume "st ip = Some e \<and> now \<le> resetTime e \<and> count e < 50"
  then have "checkRateLimit ip now st =
      (\<lparr>allowed = True, remaining = dailyLimit - (count e + 1)\<rparr>,
       (sweep now st)(ip \<mapsto> e\<lparr>count := count e + 1\<rparr>))"
    by (intro check_live[of st ip e now]) (simp_all add: dailyLimit_def)
  with assms show "r1 = \<lparr>allowed = True, remaining = 50 - (count e + 1)\<rparr>"
    and "s1 ip = Some (e\<lparr>count := count e + 1\<rparr>)"
    by (auto simp: dailyLimit_def)
next
  fix e later assume "allowed r1 \<and> s1 ip = Some e \<and> later \<le> resetTime e"
  then show "fst (checkRateLimit ip later s1) =
              (if remaining r1 > 0 then \<lparr>allowed = True, remaining = remaining r1 - 1\<rparr>
               else \<lparr>allowed = False, remaining = 0\<rparr>)"
    using check_next[OF assms] by blast
next
  fix e assume h: "st ip = Some e \<and> now \<le> resetTime e \<and> count e \<ge> 50"
  then have full: "checkRateLimit ip now st = (\<lparr>allowed = False, remaining = 0\<rparr>, sweep now st)"
    by (intro check_full[of st ip e now]) (simp_all add: dailyLimit_def)
  with assms show r: "r1 = \<lparr>allowed = False, remaining = 0\<rparr>" and s: "s1 = sweep now st"
    by auto
  show live: "s1 ip = Some e" using h s sweep_live[of st ip e now] by simp
  have again: "checkRateLimit ip later s1 = (\<lparr>allowed = False, remaining = 0\<rparr>, sweep later s1)"
    if "later \<le> resetTime e" for later
    using that h live by (intro check_full[of s1 ip e later]) (simp_all add: dailyLimit_def)
  from again[of now] h show "checkRateLimit ip now s1 = (\<lparr>allowed = False, remaining = 0\<rparr>, s1)"
    by (simp add: s sweep_idem)
  {
    fix later assume l: "later \<le> resetTime e"
    from again[OF l]
    show "checkRateLimit ip later s1 = (\<lparr>allowed = False, remaining = 0\<rparr>, sweep later s1)" .
    from l live show "sweep later s1 ip = Some e" by (intro sweep_live[of s1 ip e later])
  }
  assume "\<forall>k v. st k = Some v \<longrightarrow> now \<le> resetTime v"
  then have "sweep now st = st" by (intro sweep_none_expired[of st now]) blast
  with s show "s1 = st" by simp
qed

theorem checkRateLimit_contract_witness:
  "fst (checkRateLimit (js ''a'') 1000 Map.empty) = \<lparr>allowed = True, remaining = 49\<rparr>
   \<and> snd (checkRateLimit (js ''a'') 1000 Map.empty) (js ''a'') = Some \<lparr>count = 1, resetTime = 86401000\<rparr>
   \<and> fst (checkRateLimit (js ''a'') 2000 [js ''a'' \<mapsto> \<lparr>count = 7, resetTime = 5000\<rparr>])
        = \<lparr>allowed = True, remaining = 42\<rparr>
   \<and> fst (checkRateLimit (js ''a'') 3000
          (snd (checkRateLimit (js ''a'') 2000 [js ''a'' \<mapsto> \<lparr>count = 7, resetTime = 5000\<rparr>])))
        = \<lparr>allowed = True, remaining = 41\<rparr>
   \<and> fst (checkRateLimit (js ''a'') 2000 [js ''a'' \<mapsto> \<lparr>count = 50, resetTime = 5000\<rparr>])
        = \<lparr>allowed = False, remaining = 0\<rparr>
   \<and> snd (checkRateLimit (js ''a'') 2000 [js ''a'' \<mapsto> \<lparr>count = 50, resetTime = 5000\<rparr>])
        = [js ''a'' \<mapsto> \<lparr>count = 50, resetTime = 5000\<rparr>]"
proof -
  let ?ip = "js ''a''"
  let ?s7 = "[?ip \<mapsto> \<lparr>count = 7, resetTime = 5000\<rparr>]"
  let ?s50 = "[?ip \<mapsto> \<lparr>count = 50, resetTime = 5000\<rparr>]"
  have fresh: "fst (checkRateLimit ?ip 1000 Map.empty) = \<lparr>allowed = True, remaining = 49\<rparr>
       \<and> snd (checkRateLimit ?ip 1000 Map.empty) ?ip = Some \<lparr>count = 1, resetTime = 86401000\<rparr>"
    using checkRateLimit_contract[of ?ip 1000 Map.empty
        "fst (checkRateLimit ?ip 1000 Map.empty)" "snd (checkRateLimit ?ip 1000 Map.empty)"]
    by simp
  have c7: "fst (checkRateLimit ?ip 2000 ?s7) = \<lparr>allowed = True, remaining = 42\<rparr>
       \<and> snd (checkRateLimit ?ip 2000 ?s7) ?ip = Some \<lparr>count = 8, resetTime = 5000\<rparr>"
    using checkRateLimit_contract[of ?ip 2000 ?s7
        "fst (checkRateLimit ?ip 2000 ?s7)" "snd (checkRateLimit ?ip 2000 ?s7)"]
    by simp
  have c8: "fst (checkRateLimit ?ip 3000 (snd (checkRateLimit ?ip 2000 ?s7)))
        = \<lparr>allowed = True, remaining = 41\<rparr>"
    using checkRateLimit_contract[of ?ip 2000 ?s7
        "fst (checkRateLimit ?ip 2000 ?s7)" "snd (checkRateLimit ?ip 2000 ?s7)"] c7
    by (simp add: prod_eq_iff)
  have live: "\<forall>k v. ?s50 k = Some v \<longrightarrow> 2000 \<le> resetTime v"
    by (auto split: if_splits)
  have full: "?s50 ?ip = Some \<lparr>count = 50, resetTime = 5000\<rparr>
      \<and> 2000 \<le> resetTime \<lparr>count = 50, resetTime = 5000\<rparr>
      \<and> count \<lparr>count = 50, resetTime = 5000\<rparr> \<ge> 50"
    by simp
  have c50: "fst (checkRateLimit ?ip 2000 ?s50) = \<lparr>allowed = False, remaining = 0\<rparr>
       \<and> snd (checkRateLimit ?ip 2000 ?s50) = ?s50"
    using checkRateLimit_contract[of ?ip 2000 ?s50
        "fst (checkRateLimit ?ip 2000 ?s50)" "snd (checkRateLimit ?ip 2000 ?s50)"] live full
    by (metis prod.collapse)
  from fresh c7 c8 c50 show ?thesis by simp
qed

text \<open>
  C2. A \<open>POST\<close> whose body is absent or is not JSON makes \<open>request.json()\<close> reject, and a
  body that is the JSON value \<open>null\<close> cannot be destructured; in both cases the handler's
  \<open>catch\<close> block answers with status 500 and a fallback message, not with 400.
\<close>

theorem POST_without_body:
  "POST \<lparr>bodyJson = None, xForwardedFor = f, xRealIp = i\<rparr> e st
     = (Some \<lparr>status = 500, payload = ChatBody (pickFallback (random e)) True 0\<rparr>, st)
   \<and> POST \<lparr>bodyJson = Some JNull, xForwardedFor = f, xRealIp = i\<rparr> e st
     = (Some \<lparr>status = 500, payload = ChatBody (pickFallback (random e)) True 0\<rparr>, st)"
  by (simp add: POST_no_body POST_null POST_catch_def)

theorem POST_without_body_witness:
  "POST \<lparr>bodyJson = None, xForwardedFor = None, xRealIp = None\<rparr> (offlineEnv 0) Map.empty
     = (Some \<lparr>status = 500, payload = ChatBody (Some (FALLBACK_RESPONSES ! 2)) True 0\<rparr>,
        Map.empty)"
  using POST_without_body[of None None "offlineEnv 0" Map.empty]
  by (simp add: offlineEnv_def pick_half)

text \<open>
  C3, as amended. In every store the handlers can reach from the empty store, each count
  lies between 0 and 50. A record is live while \<open>now \<le> resetTime\<close> and expired once
  \<open>now > resetTime\<close>. So once a caller's count is 50, \<open>checkRateLimit\<close> rejects the caller
  exactly while \<open>now \<le> resetTime\<close>, the instant \<open>now = resetTime\<close> included; as soon as
  \<open>now > resetTime\<close> the call does exactly what a first call of a caller without a record
  does: 49 remaining, and a new record with count 1 and a window of 24 hours.
\<close>

theorem quota_window:
  assumes "reachable st"
  shows "(\<forall>ip e. st ip = Some e \<longrightarrow> 0 \<le> count e \<and> count e \<le> 50)
       \<and> (\<forall>ip e now. st ip = Some e \<and> count e = 50 \<longrightarrow>
             (allowed (fst (checkRateLimit ip now st)) \<longleftrightarrow> now > resetTime e)
           \<and> (now \<le> resetTime e \<longrightarrow>
                 fst (checkRateLimit ip now st) = \<lparr>allowed = False, remaining = 0\<rparr>)
           \<and> (now > resetTime e \<longrightarrow>
                 checkRateLimit ip now st = checkRateLimit ip now (st(ip := None))
               \<and> fst (checkRateLimit ip now st) = \<lparr>allowed = True, remaining = 49\<rparr>
               \<and> snd (checkRateLimit ip now st) ip
                    = Some \<lparr>count = 1, resetTime = now + 24 * 60 * 60 * 1000\<rparr>))"
proof (intro conjI allI impI)
  fix ip e assume "st ip = Some e"
  with reachable_countsOk[OF assms] have "1 \<le> count e \<and> count e \<le> dailyLimit"
    unfolding countsOk_def by blast
  then show "0 \<le> count e" and "count e \<le> 50" by (simp_all add: dailyLimit_def)
next
  fix ip e now assume h: "st ip = Some e \<and> count e = 50"
  show "allowed (fst (checkRateLimit ip now st)) \<longleftrightarrow> now > resetTime e"
  proof (cases "now > resetTime e")
    case True
    then show ?thesis using check_fresh[of st ip now] h by auto
  next
    case False
    then show ?thesis using check_full[of st ip e now] h by (simp add: dailyLimit_def)
  qed
next
  fix ip e now assume "st ip = Some e \<and> count e = 50" and "now \<le> resetTime e"
  then show "fst (checkRateLimit ip now st) = \<lparr>allowed = False, remaining = 0\<rparr>"
    using check_full[of st ip e now] by (simp add: dailyLimit_def)
next
  fix ip e now assume h: "st ip = Some e \<and> count e = 50" and x: "now > resetTime e"
  then show "checkRateLimit ip now st = checkRateLimit ip now (st(ip := None))"
    using check_expired_as_first[of st ip e now] by simp
  from h x show "fst (checkRateLimit ip now st) = \<lparr>allowed = True, remaining = 49\<rparr>"
    and "snd (checkRateLimit ip now st) ip = Some \<lparr>count = 1, resetTime = now + 24 * 60 * 60 * 1000\<rparr>"
    using check_fresh[of st ip now] by (auto simp: dayMs_def)
qed

theorem quota_window_witness:
  "count \<lparr>count = 50, resetTime = 86400000\<rparr> \<le> 50
   \<and> fst (checkRateLimit visitor 86400000 (run (replicate 50 (Post helloRequest (offlineEnv 0))) Map.empty))
        = \<lparr>allowed = False, remaining = 0\<rparr>
   \<and> fst (checkRateLimit visitor 86400001 (run (replicate 50 (Post helloRequest (offlineEnv 0))) Map.empty))
        = \<lparr>allowed = True, remaining = 49\<rparr>"
proof -
  let ?st = "run (replicate 50 (Post helloRequest (offlineEnv 0))) Map.empty"
  let ?e = "\<lparr>count = 50, resetTime = 86400000\<rparr>"
  have r: "reachable ?st" by (intro run_reachable reachable.initial)
  have p: "?st visitor = Some ?e \<and> count ?e = 50" using fifty_posts by simp
  from quota_window[OF r] p have a: "0 \<le> count ?e \<and> count ?e \<le> 50" by blast
  from quota_window[OF r] p
  have b: "86400000 \<le> resetTime ?e \<longrightarrow>
             fst (checkRateLimit visitor 86400000 ?st) = \<lparr>allowed = False, remaining = 0\<rparr>"
    by blast
  from quota_window[OF r] p
  have c: "86400001 > resetTime ?e \<longrightarrow>
             fst (checkRateLimit visitor 86400001 ?st) = \<lparr>allowed = True, remaining = 49\<rparr>"
    by blast
  from a b c show ?thesis by simp
qed

text \<open>
  The claim as first stated puts the reset at \<open>now \<ge> resetTime\<close>. After 50 accepted
  requests at time 0 the record is \<open>{count: 50, resetTime: 86400000}\<close>; a call at
  \<open>now = 86400000\<close> is still rejected and is not what a first call would be.
\<close>

theorem quota_boundary_counterexample:
  "reachable (run (replicate 50 (Post helloRequest (offlineEnv 0))) Map.empty)
   \<and> run (replicate 50 (Post helloRequest (offlineEnv 0))) Map.empty visitor
        = Some \<lparr>count = 50, resetTime = 86400000\<rparr>
   \<and> (86400000 :: int) \<ge> 86400000
   \<and> checkRateLimit visitor 86400000 (run (replicate 50 (Post helloRequest (offlineEnv 0))) Map.empty)
        \<noteq> checkRateLimit visitor 86400000 Map.empty
   \<and> fst (checkRateLimit visitor 86400000 (run (replicate 50 (Post helloRequest (offlineEnv 0))) Map.empty))
        = \<lparr>allowed = False, remaining = 0\<rparr>"
proof -
  let ?st = "run (replicate 50 (Post helloRequest (offlineEnv 0))) Map.empty"
  have r: "reachable ?st" by (intro run_reachable reachable.initial)
  have f: "fst (checkRateLimit visitor 86400000 ?st) = \<lparr>allowed = False, remaining = 0\<rparr>"
    using check_full[of ?st visitor _ 86400000] fifty_posts by (simp add: dailyLimit_def)
  have "fst (checkRateLimit visitor 86400000 Map.empty) = \<lparr>allowed = True, remaining = 49\<rparr>"
    using check_fresh[of Map.empty visitor 86400000] by simp
  with f have "checkRateLimit visitor 86400000 ?st \<noteq> checkRateLimit visitor 86400000 Map.empty"
    by auto
  with r f fifty_posts show ?thesis by simp
qed

text \<open>
  C4. When an accepted request comes from a caller whose live record has a count of 50
  or more, \<open>POST\<close> answers with status 200, \<open>fallback = true\<close>, \<open>remaining = 0\<close> and the
  fixed daily-limit text, whatever the random draw; that text is not one of the pool.
  The store is only swept.
\<close>

theorem POST_quota_exhausted:
  assumes "accepted request" and "st (getClientIP request) = Some used"
    and "clock e \<le> resetTime used" and "count used \<ge> 50"
  shows "POST request e st
           = (Some \<lparr>status = 200, payload = ChatBody (Some LIMIT_MESSAGE) True 0\<rparr>,
              sweep (clock e) st)
       \<and> LIMIT_MESSAGE \<notin> set FALLBACK_RESPONSES"
proof -
  have "checkRateLimit (getClientIP request) (clock e) st
          = (\<lparr>allowed = False, remaining = 0\<rparr>, sweep (clock e) st)"
    using check_full[of st "getClientIP request" used "clock e"] assms
    by (simp add: dailyLimit_def)
  from POST_accepted[OF assms(1) this] limit_message_fixed show ?thesis by simp
qed

theorem POST_quota_exhausted_witness:
  "POST helloRequest (offlineEnv 10) [visitor \<mapsto> \<lparr>count = 50, resetTime = 1000\<rparr>]
     = (Some \<lparr>status = 200, payload = ChatBody (Some LIMIT_MESSAGE) True 0\<rparr>,
        sweep 10 [visitor \<mapsto> \<lparr>count = 50, resetTime = 1000\<rparr>])"
  using POST_quota_exhausted[of helloRequest "[visitor \<mapsto> \<lparr>count = 50, resetTime = 1000\<rparr>]"
      "\<lparr>count = 50, resetTime = 1000\<rparr>" "offlineEnv 10"]
  by (simp add: hello_accepted visitor_ip offlineEnv_def)

text \<open>
  C5. Let a request be accepted and its quota check allow it, returning \<open>rl\<close>. If no
  credential is configured, or the upstream call raises, or it returns no text or the
  empty text, then \<open>POST\<close> answers with status 200, \<open>fallback = true\<close>, a message of the
  pool of five, and the remaining value of \<open>rl\<close>; the store is the one the quota check
  left. \<open>Math.random()\<close> returns a number from 0 up to, but not including, 1.
\<close>

theorem POST_degrades_to_fallback:
  assumes "accepted request"
    and "checkRateLimit (getClientIP request) (clock e) st = (rl, st')" and "allowed rl"
    and "0 \<le> random e" and "random e < 1"
    and "\<not> truthyString (apiKey e) \<or> generate e (requestPrompt request) = Rejected
         \<or> generate e (requestPrompt request) = Resolved None
         \<or> generate e (requestPrompt request) = Resolved (Some [])"
  shows "\<exists>m\<in>set FALLBACK_RESPONSES.
           POST request e st =
             (Some \<lparr>status = 200, payload = ChatBody (Some m) True (remaining rl)\<rparr>, st')"
proof -
  have "\<not> truthyString (apiKey e) \<or> generate e (requestPrompt request) = Rejected
         \<or> (\<exists>t. generate e (requestPrompt request) = Resolved t \<and> \<not> truthyString t)"
    using assms(6) by (auto simp: truthyString_def)
  from POST_fallback[OF assms(1-5) this] show ?thesis .
qed

theorem POST_degrades_to_fallback_witness:
  "POST helloRequest (offlineEnv 0) Map.empty
     = (Some \<lparr>status = 200, payload = ChatBody (Some (FALLBACK_RESPONSES ! 2)) True 49\<rparr>,
        snd (checkRateLimit visitor 0 Map.empty))
   \<and> POST helloRequest (onlineEnv 0 Rejected) Map.empty
     = (Some \<lparr>status = 200, payload = ChatBody (Some (FALLBACK_RESPONSES ! 2)) True 49\<rparr>,
        snd (checkRateLimit visitor 0 Map.empty))
   \<and> POST helloRequest (onlineEnv 0 (Resolved (Some []))) Map.empty
     = (Some \<lparr>status = 200, payload = ChatBody (Some (FALLBACK_RESPONSES ! 2)) True 49\<rparr>,
        snd (checkRateLimit visitor 0 Map.empty))"
proof -
  have c: "checkRateLimit visitor 0 Map.empty
             = (\<lparr>allowed = True, remaining = 49\<rparr>, snd (checkRateLimit visitor 0 Map.empty))"
    using check_fresh[of Map.empty visitor 0] by simp
  have pick: "ChatBody (Some m) True 49 = ChatBody (pickFallback (1 / 2)) True 49
                \<Longrightarrow> m = FALLBACK_RESPONSES ! 2" for m
    by (simp add: pick_half)
  have a: "POST helloRequest (offlineEnv 0) Map.empty
     = (Some \<lparr>status = 200, payload = ChatBody (Some (FALLBACK_RESPONSES ! 2)) True 49\<rparr>,
        snd (checkRateLimit visitor 0 Map.empty))"
    using POST_degrades_to_fallback[of helloRequest "offlineEnv 0" Map.empty
        "\<lparr>allowed = True, remaining = 49\<rparr>" "snd (checkRateLimit visitor 0 Map.empty)"]
      c POST_accepted[OF hello_accepted, of "offlineEnv 0" Map.empty] pick
    by (auto simp: hello_accepted visitor_ip offlineEnv_def truthyString_def)
  have b: "POST helloRequest (onlineEnv 0 u) Map.empty
     = (Some \<lparr>status = 200, payload = ChatBody (Some (FALLBACK_RESPONSES ! 2)) True 49\<rparr>,
        snd (checkRateLimit visitor 0 Map.empty))"
    if "u = Rejected \<or> u = Resolved (Some [])" for u
    using POST_degrades_to_fallback[of helloRequest "onlineEnv 0 u" Map.empty
        "\<lparr>allowed = True, remaining = 49\<rparr>" "snd (checkRateLimit visitor 0 Map.empty)"]
      c POST_accepted[OF hello_accepted, of "onlineEnv 0 u" Map.empty] pick that
    by (auto simp: hello_accepted visitor_ip onlineEnv_def truthyString_def)
  from a b[of Rejected] b[of "Resolved (Some [])"] show ?thesis by simp
qed

text \<open>
  C6. \<open>sanitizeInput\<close> is a total function and applies its four stages in this order:
  trim, removal of the script fragments, removal of the angle brackets, truncation to
  1000 code units. The second stage, run by the regular expression, is the removal of
  script fragments as the specification words it. The result is never longer than 1000
  and holds no angle bracket.
  \<^item> White space is the set of code units listed, and white space put around a text
    does not change the result; a text without angle brackets that neither starts nor
    ends with white space is only truncated.
  \<^item> A fragment whose tags are \<^verbatim>\<open><script\<close> and \<^verbatim>\<open></script>\<close> in any letter case, the
    name of the opening tag ending at a character that is no letter, digit or
    underscore, is removed: the result is that of the text without it.
  \<^item> 2000 letters \<open>a\<close> give 1000 letters \<open>a\<close>, and the text with the script fragment gives
    \<open>hi  there\<close>. Further texts show white space of several kinds around a text with
    upper-case tags, that trimming comes before the removal of fragments, that the
    brackets go after it, that \<^verbatim>\<open><scriptx>\<close> opens no fragment, that the text is
    scanned once, and that truncation comes last.
\<close>

theorem sanitizeInput_contract:
  "sanitizeInput s = take 1000 (filter (\<lambda>c. c \<noteq> 60 \<and> c \<noteq> 62) (removeFragments (trim s)))
   \<and> length (sanitizeInput s) \<le> 1000
   \<and> 60 \<notin> set (sanitizeInput s) \<and> 62 \<notin> set (sanitizeInput s)
   \<and> (isWhiteSpace c \<longleftrightarrow>
        c \<in> {9, 10, 11, 12, 13, 32, 160, 5760, 8232, 8233, 8239, 8287, 12288, 65279}
              \<union> {8192..8202})
   \<and> ((\<forall>c\<in>set ws. isWhiteSpace c) \<and> (\<forall>c\<in>set ws'. isWhiteSpace c)
        \<longrightarrow> sanitizeInput (ws @ s @ ws') = sanitizeInput s)
   \<and> (60 \<notin> set s \<and> 62 \<notin> set s \<and> s \<noteq> [] \<and> \<not> isWhiteSpace (hd s) \<and> \<not> isWhiteSpace (last s)
        \<longrightarrow> sanitizeInput s = take 1000 s)
   \<and> (isWordChar c \<longleftrightarrow> c \<in> {48..57} \<union> {65..90} \<union> {95} \<union> {97..122})
   \<and> (list_all2 (\<lambda>c p. c = p \<or> (97 \<le> p \<and> p \<le> 122 \<and> c + 32 = p)) otag (js ''<script'')
        \<and> list_all2 (\<lambda>c p. c = p \<or> (97 \<le> p \<and> p \<le> 122 \<and> c + 32 = p)) ctag (js ''</script>'')
        \<and> 60 \<notin> set inner \<and> (inner = [] \<or> \<not> isWordChar (hd inner))
        \<and> 60 \<notin> set pre \<and> pre \<noteq> [] \<and> \<not> isWhiteSpace (hd pre)
        \<and> post \<noteq> [] \<and> \<not> isWhiteSpace (last post)
        \<longrightarrow> sanitizeInput (pre @ otag @ inner @ ctag @ post) = sanitizeInput (pre @ post))
   \<and> sanitizeInput (js (replicate 2000 CHR ''a'')) = js (replicate 1000 CHR ''a'')
   \<and> sanitizeInput (js ''hi <script>alert(1)</script> there'') = js ''hi  there''
   \<and> sanitizeInput ([9, 32, 160] @ js ''Hi <SCRIPT src=x>alert(1)</ScRiPt> there'' @ [10, 8232, 65279])
        = js ''Hi  there''
   \<and> sanitizeInput (js ''<script>x</script> a'') = js '' a''
   \<and> sanitizeInput (js ''a<b>c'') = js ''abc''
   \<and> sanitizeInput (js ''<scriptx>1</script>'') = js ''scriptx1/script''
   \<and> sanitizeInput (js ''<scr<script></script>ipt>x'') = js ''scriptx''
   \<and> sanitizeInput (replicate 995 97 @ js ''<script>x</script>bbbbbbbbbb'')
        = replicate 995 97 @ js ''bbbbb''"
proof (intro conjI impI)
  show "sanitizeInput s = take 1000 (filter (\<lambda>c. c \<noteq> 60 \<and> c \<noteq> 62) (removeFragments (trim s)))"
    by (simp add: sanitizeInput_spec sanitize_spec_def)
  show "length (sanitizeInput s) \<le> 1000" by (rule sanitizeInput_length)
  show "60 \<notin> set (sanitizeInput s)" and "62 \<notin> set (sanitizeInput s)"
    using sanitizeInput_no_brackets[of s] by simp_all
  show "isWhiteSpace c \<longleftrightarrow>
        c \<in> {9, 10, 11, 12, 13, 32, 160, 5760, 8232, 8233, 8239, 8287, 12288, 65279}
              \<union> {8192..8202}"
    by (rule isWhiteSpace_iff)
  show "isWordChar c \<longleftrightarrow> c \<in> {48..57} \<union> {65..90} \<union> {95} \<union> {97..122}"
    by (rule isWordChar_iff)
next
  assume "(\<forall>c\<in>set ws. isWhiteSpace c) \<and> (\<forall>c\<in>set ws'. isWhiteSpace c)"
  then show "sanitizeInput (ws @ s @ ws') = sanitizeInput s"
    by (intro sanitizeInput_outer) simp_all
next
  assume "60 \<notin> set s \<and> 62 \<notin> set s \<and> s \<noteq> [] \<and> \<not> isWhiteSpace (hd s) \<and> \<not> isWhiteSpace (last s)"
  then show "sanitizeInput s = take 1000 s"
    by (intro sanitizeInput_plain) simp_all
next
  assume "list_all2 (\<lambda>c p. c = p \<or> (97 \<le> p \<and> p \<le> 122 \<and> c + 32 = p)) otag (js ''<script'')
        \<and> list_all2 (\<lambda>c p. c = p \<or> (97 \<le> p \<and> p \<le> 122 \<and> c + 32 = p)) ctag (js ''</script>'')
        \<and> 60 \<notin> set inner \<and> (inner = [] \<or> \<not> isWordChar (hd inner))
        \<and> 60 \<notin> set pre \<and> pre \<noteq> [] \<and> \<not> isWhiteSpace (hd pre)
        \<and> post \<noteq> [] \<and> \<not> isWhiteSpace (last post)"
  then show "sanitizeInput (pre @ otag @ inner @ ctag @ post) = sanitizeInput (pre @ post)"
    by (intro sanitizeInput_fragment) simp_all
qed (rule sanitizeInput_long sanitizeInput_script sanitizeInput_mixed sanitizeInput_order_trim
      sanitizeInput_brackets sanitizeInput_boundary sanitizeInput_single_pass
      sanitizeInput_order_slice)+

theorem sanitizeInput_contract_witness:
  "sanitizeInput ([32, 9] @ js ''a b'' @ [10]) = js ''a b''
   \<and> sanitizeInput (js ''x'' @ js ''<ScRiPt'' @ js '' type=t>alert(1)'' @ js ''</SCRIPT>'' @ js ''y'')
       = js ''xy''"
proof -
  note first = sanitizeInput_contract[where s = "js ''a b''" and ws = "[32, 9]" and ws' = "[10]"
      and c = 32 and otag = "js ''<ScRiPt''" and ctag = "js ''</SCRIPT>''"
      and inner = "js '' type=t>alert(1)''" and pre = "js ''x''" and post = "js ''y''",
      THEN conjunct2]
  note second = sanitizeInput_contract[where s = "js ''x'' @ js ''y''" and ws = "[]" and ws' = "[]"
      and c = 32 and otag = "js ''<ScRiPt''" and ctag = "js ''</SCRIPT>''"
      and inner = "js '' type=t>alert(1)''" and pre = "js ''x''" and post = "js ''y''",
      THEN conjunct2]
  have a: "sanitizeInput ([32, 9] @ js ''a b'' @ [10]) = sanitizeInput (js ''a b'')"
    using first by (simp add: isWhiteSpace_def js_def)
  have b: "sanitizeInput (js ''a b'') = take 1000 (js ''a b'')"
    using first by (simp add: isWhiteSpace_def js_def)
  have c: "sanitizeInput (js ''x'' @ js ''<ScRiPt'' @ js '' type=t>alert(1)'' @ js ''</SCRIPT>'' @ js ''y'')
       = sanitizeInput (js ''x'' @ js ''y'')"
    using first by (simp add: isWhiteSpace_def isWordChar_def js_def)
  have d: "sanitizeInput (js ''x'' @ js ''y'') = take 1000 (js ''x'' @ js ''y'')"
    using second by (simp add: isWhiteSpace_def js_def)
  from a b c d show ?thesis by (simp add: js_def)
qed

text \<open>
  C7. The status handler never creates and never increments a record: after it, every
  key holds either nothing or what it held before, and a key that held nothing holds
  nothing. Any number of status probes, of any callers, made no later than the next
  consuming call, leave that call with the same result and the same store as without
  them; the response of the next \<open>POST\<close> is the same as well.
\<close>

theorem peek_is_passive:
  "(snd (GET request now st) key = None \<or> snd (GET request now st) key = st key)
   \<and> (st key = None \<longrightarrow> snd (GET request now st) key = None)
   \<and> ((\<forall>ev\<in>set evs. isPeek ev \<and> eventTime ev \<le> t) \<longrightarrow>
         checkRateLimit ip t (run evs st) = checkRateLimit ip t st)
   \<and> ((\<forall>ev\<in>set evs. isPeek ev \<and> eventTime ev \<le> clock e) \<longrightarrow>
         fst (POST posted e (run evs st)) = fst (POST posted e st))"
proof (intro conjI impI)
  show "snd (GET request now st) key = None \<or> snd (GET request now st) key = st key"
    by (rule GET_never_creates)
  then show "snd (GET request now st) key = None" if "st key = None"
    using that by auto
next
  assume "\<forall>ev\<in>set evs. isPeek ev \<and> eventTime ev \<le> t"
  then show "checkRateLimit ip t (run evs st) = checkRateLimit ip t st"
    by (rule peeks_check)
next
  assume "\<forall>ev\<in>set evs. isPeek ev \<and> eventTime ev \<le> clock e"
  then have "checkRateLimit (getClientIP posted) (clock e) (run evs st)
           = checkRateLimit (getClientIP posted) (clock e) st"
    by (rule peeks_check)
  then show "fst (POST posted e (run evs st)) = fst (POST posted e st)"
    by (rule POST_same_check)
qed

theorem peek_is_passive_witness:
  "checkRateLimit visitor 30
     (run [Get helloRequest 10, Get helloRequest 20]
          [visitor \<mapsto> \<lparr>count = 3, resetTime = 1000\<rparr>])
     = checkRateLimit visitor 30 [visitor \<mapsto> \<lparr>count = 3, resetTime = 1000\<rparr>]
   \<and> fst (checkRateLimit visitor 30 [visitor \<mapsto> \<lparr>count = 3, resetTime = 1000\<rparr>])
        = \<lparr>allowed = True, remaining = 46\<rparr>
   \<and> snd (GET helloRequest 10 Map.empty) visitor = None"
proof -
  let ?st = "[visitor \<mapsto> \<lparr>count = 3, resetTime = 1000\<rparr>]"
  let ?evs = "[Get helloRequest 10, Get helloRequest 20]"
  have a: "checkRateLimit visitor 30 (run ?evs ?st) = checkRateLimit visitor 30 ?st"
    using peek_is_passive[where evs = ?evs and t = 30 and ip = visitor and st = ?st]
    by simp
  have b: "snd (GET helloRequest 10 Map.empty) visitor = None"
    using peek_is_passive[where request = helloRequest and now = 10
        and st = Map.empty and key = visitor and evs = "[]"]
    by simp
  have c: "fst (checkRateLimit visitor 30 ?st) = \<lparr>allowed = True, remaining = 46\<rparr>"
    using check_live[of ?st visitor _ 30] by (simp add: dailyLimit_def)
  from a b c show ?thesis by simp
qed



text \<open>
  C9, as amended. The handler awaits the upstream call without a timeout. \<open>POST\<close> gives
  no response exactly when the request is accepted, the quota check allows it, a
  credential is configured and the upstream call never settles. When the call settles
  by raising or with no text, the answer is the fallback answer with status 200.
\<close>

theorem POST_awaits_upstream:
  "(fst (POST request e st) = None \<longleftrightarrow>
      accepted request \<and> allowed (fst (checkRateLimit (getClientIP request) (clock e) st))
      \<and> truthyString (apiKey e) \<and> generate e (requestPrompt request) = Pending)
   \<and> (accepted request \<and> allowed (fst (checkRateLimit (getClientIP request) (clock e) st))
      \<and> truthyString (apiKey e) \<and> 0 \<le> random e \<and> random e < 1
      \<and> (generate e (requestPrompt request) = Rejected
         \<or> generate e (requestPrompt request) = Resolved None
         \<or> generate e (requestPrompt request) = Resolved (Some []))
      \<longrightarrow> (\<exists>m\<in>set FALLBACK_RESPONSES.
             fst (POST request e st) =
               Some \<lparr>status = 200,
                     payload = ChatBody (Some m) True
                       (remaining (fst (checkRateLimit (getClientIP request) (clock e) st)))\<rparr>))"
proof (intro conjI impI)
  show "fst (POST request e st) = None \<longleftrightarrow>
      accepted request \<and> allowed (fst (checkRateLimit (getClientIP request) (clock e) st))
      \<and> truthyString (apiKey e) \<and> generate e (requestPrompt request) = Pending"
    by (rule POST_pending_iff)
next
  assume h: "accepted request \<and> allowed (fst (checkRateLimit (getClientIP request) (clock e) st))
      \<and> truthyString (apiKey e) \<and> 0 \<le> random e \<and> random e < 1
      \<and> (generate e (requestPrompt request) = Rejected
         \<or> generate e (requestPrompt request) = Resolved None
         \<or> generate e (requestPrompt request) = Resolved (Some []))"
  obtain rl st' where c: "checkRateLimit (getClientIP request) (clock e) st = (rl, st')"
    by (cases "checkRateLimit (getClientIP request) (clock e) st")
  have "\<not> truthyString (apiKey e) \<or> generate e (requestPrompt request) = Rejected
         \<or> (\<exists>t. generate e (requestPrompt request) = Resolved t \<and> \<not> truthyString t)"
    using h by (auto simp: truthyString_def)
  from POST_fallback[OF _ c _ _ _ this] h c
  show "\<exists>m\<in>set FALLBACK_RESPONSES.
             fst (POST request e st) =
               Some \<lparr>status = 200,
                     payload = ChatBody (Some m) True
                       (remaining (fst (checkRateLimit (getClientIP request) (clock e) st)))\<rparr>"
    by auto
qed

theorem POST_awaits_upstream_witness:
  "fst (POST helloRequest (onlineEnv 0 Pending) Map.empty) = None
   \<and> fst (POST helloRequest (onlineEnv 0 Rejected) Map.empty) \<noteq> None"
proof -
  have c: "fst (checkRateLimit visitor 0 Map.empty) = \<lparr>allowed = True, remaining = 49\<rparr>"
    using check_fresh[of Map.empty visitor 0] by simp
  have a: "fst (POST helloRequest (onlineEnv 0 Pending) Map.empty) = None"
    using POST_awaits_upstream[of helloRequest "onlineEnv 0 Pending" Map.empty] c
    by (simp add: hello_accepted visitor_ip onlineEnv_def truthyString_def js_def)
  have b: "fst (POST helloRequest (onlineEnv 0 Rejected) Map.empty) \<noteq> None"
    using POST_awaits_upstream[of helloRequest "onlineEnv 0 Rejected" Map.empty] c
    by (simp add: hello_accepted visitor_ip onlineEnv_def truthyString_def js_def)
  from a b show ?thesis by simp
qed

text \<open>
  The claim as first stated bounds the upstream call by a timeout. With a call that never
  settles, an accepted request is charged to the quota and never answered.
\<close>

theorem upstream_pending_counterexample:
  "accepted helloRequest
   \<and> fst (POST helloRequest (onlineEnv 0 Pending) Map.empty) = None
   \<and> snd (POST helloRequest (onlineEnv 0 Pending) Map.empty) visitor
       = Some \<lparr>count = 1, resetTime = 86400000\<rparr>"
proof -
  have c: "checkRateLimit visitor 0 Map.empty
     = (\<lparr>allowed = True, remaining = 49\<rparr>, Map.empty(visitor \<mapsto> \<lparr>count = 1, resetTime = 0 + dayMs\<rparr>))"
    using check_fresh[of Map.empty visitor 0] by simp
  have "POST helloRequest (onlineEnv 0 Pending) Map.empty
      = (None, Map.empty(visitor \<mapsto> \<lparr>count = 1, resetTime = 0 + dayMs\<rparr>))"
    using POST_accepted[OF hello_accepted, of "onlineEnv 0 Pending" Map.empty] c
    by (simp add: visitor_ip onlineEnv_def truthyString_def js_def)
  then show ?thesis by (simp add: hello_accepted dayMs_def)
qed

text \<open>
  C10. Peek and consumption at the public interface. Let a caller without a live record
  make a consuming request at time \<open>t1\<close>, and let any requests of any callers follow, all
  no later than \<open>t1\<close> plus 24 hours, so that the caller has made \<open>k\<close> consuming requests in
  all, with \<open>k\<close> at most 50. Then a status probe of the caller inside the window reports
  \<open>50 - k\<close> remaining and the stored end of the window, \<open>t1\<close> plus 24 hours. For a caller
  with no record, or with an expired one, the probe reports 50 remaining and the probe's
  own time plus 24 hours as the reset time, so two probes at different times report
  different reset times.
\<close>

theorem status_after_consumption:
  "(consumesFor ip ev1 \<and> (st ip = None \<or> (\<exists>e. st ip = Some e \<and> eventTime ev1 > resetTime e))
      \<and> (\<forall>ev\<in>set evs. eventTime ev \<le> eventTime ev1 + 24 * 60 * 60 * 1000)
      \<and> k = 1 + int (length (filter (consumesFor ip) evs)) \<and> k \<le> 50
      \<and> getClientIP probe = ip \<and> now \<le> eventTime ev1 + 24 * 60 * 60 * 1000
    \<longrightarrow> fst (GET probe now (run (ev1 # evs) st))
          = \<lparr>status = 200, payload = StatusBody (50 - k) (eventTime ev1 + 24 * 60 * 60 * 1000)\<rparr>)
   \<and> (getClientIP probe = ip \<and> (st ip = None \<or> (\<exists>e. st ip = Some e \<and> now > resetTime e))
    \<longrightarrow> fst (GET probe now st)
          = \<lparr>status = 200, payload = StatusBody 50 (now + 24 * 60 * 60 * 1000)\<rparr>)"
proof (intro conjI impI)
  assume h: "consumesFor ip ev1 \<and> (st ip = None \<or> (\<exists>e. st ip = Some e \<and> eventTime ev1 > resetTime e))
      \<and> (\<forall>ev\<in>set evs. eventTime ev \<le> eventTime ev1 + 24 * 60 * 60 * 1000)
      \<and> k = 1 + int (length (filter (consumesFor ip) evs)) \<and> k \<le> 50
      \<and> getClientIP probe = ip \<and> now \<le> eventTime ev1 + 24 * 60 * 60 * 1000"
  let ?e1 = "\<lparr>count = 1, resetTime = eventTime ev1 + dayMs\<rparr>"
  have s1: "step ev1 st ip = Some ?e1"
    using first_consume[of ip ev1 st] h by blast
  have "run evs (step ev1 st) ip =
          Some (?e1\<lparr>count := count ?e1 + int (length (filter (consumesFor ip) evs))\<rparr>)"
    using h by (intro run_window s1) (simp_all add: dayMs_def dailyLimit_def)
  then have "run (ev1 # evs) st (getClientIP probe) = Some \<lparr>count = k, resetTime = eventTime ev1 + dayMs\<rparr>"
    using h by (simp add: run_Cons)
  from GET_live[of "run (ev1 # evs) st" probe "\<lparr>count = k, resetTime = eventTime ev1 + dayMs\<rparr>" now] this h
  show "fst (GET probe now (run (ev1 # evs) st))
          = \<lparr>status = 200, payload = StatusBody (50 - k) (eventTime ev1 + 24 * 60 * 60 * 1000)\<rparr>"
    by (simp add: dayMs_def dailyLimit_def)
next
  assume "getClientIP probe = ip \<and> (st ip = None \<or> (\<exists>e. st ip = Some e \<and> now > resetTime e))"
  then show "fst (GET probe now st)
          = \<lparr>status = 200, payload = StatusBody 50 (now + 24 * 60 * 60 * 1000)\<rparr>"
    using GET_fresh[of st probe now] by (auto simp: dayMs_def dailyLimit_def)
qed

theorem status_after_consumption_witness:
  "fst (GET helloRequest 20
         (run [Post helloRequest (offlineEnv 0), Get helloRequest 5,
               Post helloRequest (offlineEnv 10)] Map.empty))
     = \<lparr>status = 200, payload = StatusBody 48 86400000\<rparr>
   \<and> fst (GET helloRequest 20 Map.empty) = \<lparr>status = 200, payload = StatusBody 50 86400020\<rparr>
   \<and> fst (GET helloRequest 21 Map.empty) = \<lparr>status = 200, payload = StatusBody 50 86400021\<rparr>"
proof -
  let ?ev1 = "Post helloRequest (offlineEnv 0)"
  let ?evs = "[Get helloRequest 5, Post helloRequest (offlineEnv 10)]"
  have a: "fst (GET helloRequest 20 (run (?ev1 # ?evs) Map.empty))
     = \<lparr>status = 200, payload = StatusBody (50 - 2) (eventTime ?ev1 + 24 * 60 * 60 * 1000)\<rparr>"
    using status_after_consumption[of visitor ?ev1 Map.empty ?evs 2 helloRequest 20]
    by (simp add: hello_accepted visitor_ip offlineEnv_def)
  have b: "fst (GET helloRequest 20 Map.empty) = \<lparr>status = 200, payload = StatusBody 50 86400020\<rparr>"
    using status_after_consumption[of visitor ?ev1 Map.empty ?evs 2 helloRequest 20]
    by (simp add: visitor_ip)
  have c: "fst (GET helloRequest 21 Map.empty) = \<lparr>status = 200, payload = StatusBody 50 86400021\<rparr>"
    using status_after_consumption[of visitor ?ev1 Map.empty ?evs 2 helloRequest 21]
    by (simp add: visitor_ip)
  from a b c show ?thesis by (simp add: offlineEnv_def)
qed

end
